theory Spec2Isabelle
  imports Complex_Main "HOL-Library.Word"
begin

section \<open>windtools.io.binary: the \<open>BinaryFile\<close> helper class\<close>

text \<open>
  The class wraps one Python file object opened in binary mode and reads or writes
  fixed-width scalars with the \<open>struct\<close> module. The file object, \<open>struct.pack\<close>,
  \<open>struct.unpack\<close>, \<open>str.format\<close> and \<open>bytes.decode\<close> belong to the Python
  library; they are modelled below as far as the class uses them, each under the name of
  the library function. Every method of the class is then translated line by line.

  Exceptions are values: a method returns \<open>exn + 'a\<close> together with the file object
  after the call, because a method that raises has still moved the file position.
\<close>

subsection \<open>Values and exceptions\<close>

type_synonym byte = "8 word"

datatype exn =
    IOError
  | StructError
  | ValueError
  | UnsupportedOperation
  | UnicodeDecodeError
  | IndexError
  | OverflowError
  | NotModelled

text \<open>
  \<open>NotModelled\<close> is no exception of Python. It is the result of a library call that
  lies outside what is modelled here (a \<open>struct\<close> format beyond the fragment below, the
  floating-point encoder of the example host), so that no such call is given a result
  the library might not give.
\<close>

text \<open>
  A floating-point number is kept as the IEEE bit pattern it was decoded from, read as an
  unsigned integer: \<open>Binary32 n\<close> is the Python float whose value is that of the 32-bit
  pattern \<open>n\<close>. Applying a numeric type to a value (\<open>float(x)\<close>, \<open>np.float32(x)\<close>,
  \<open>np.float64(x)\<close>) is recorded by \<open>ConvV\<close>; the number such a value stands for is
  given by \<open>float_value\<close> further down.
\<close>

datatype ieee = Binary32 nat | Binary64 nat

datatype dtype = PyFloat | NpFloat32 | NpFloat64

datatype scalar = IntV int | FloatV ieee | ConvV dtype scalar

datatype pyval = Scalar scalar | TupleV "scalar list" | ListV "scalar list"

definition bind_exn :: "exn + 'a \<Rightarrow> ('a \<Rightarrow> exn + 'b) \<Rightarrow> exn + 'b" where
  "bind_exn r k = (case r of Inl e \<Rightarrow> Inl e | Inr v \<Rightarrow> k v)"

subsection \<open>The host platform\<close>

text \<open>
  All formats are used in \<open>struct\<close>'s native mode, so byte order and the size of a C
  \<open>long\<close> are those of the host. Writing a floating-point number needs the host's
  IEEE encoder, which is the field \<open>pack_float\<close> (format code and value to bytes).
  \<open>read_limit\<close> is the largest count that \<open>f.read\<close> accepts on the host: for a
  larger one it raises \<open>MemoryError\<close> or \<open>OverflowError\<close> before it reads anything.
\<close>

record platform =
  big_endian :: bool
  long_size :: nat
  pack_float :: "char \<Rightarrow> scalar \<Rightarrow> exn + byte list"
  read_limit :: nat

text \<open>
  The host of the examples: little-endian, with an 8-byte \<open>long\<close>, reading up to
  \<open>2 ^ 31 - 1\<close> bytes at a time. No example writes a floating-point number, and the
  encoder of this host is not modelled.
\<close>

definition example_host :: platform where
  "example_host =
     \<lparr>big_endian = False, long_size = 8, pack_float = (\<lambda>c v. Inl NotModelled),
      read_limit = 2 ^ 31 - 1\<rparr>"

subsection \<open>The file object\<close>

text \<open>
  A file object: the bytes of the file, the position of the next read or write, the mode
  it was opened in (\<open>r\<close>, \<open>w\<close> or \<open>a\<close>) and whether it has been closed.
\<close>

datatype fmode = RD | WR | AP

record handle =
  content :: "byte list"
  pos :: nat
  fmode :: fmode
  closed :: bool

definition remaining :: "handle \<Rightarrow> nat" where
  "remaining h = length (content h) - pos h"

text \<open>
  \<open>f.read(n)\<close> of a buffered binary file: up to \<open>n\<close> bytes from the current position,
  fewer only at the end of the file, everything up to the end when \<open>n\<close> is \<open>-1\<close>.
  A count below \<open>-1\<close> is a \<open>ValueError\<close>. A file opened for writing cannot be read,
  a closed file neither.

  This is \<open>f.read\<close> for the counts the host accepts. A count above the
  \<open>read_limit\<close> of the host makes \<open>f.read\<close> raise before it reads; \<open>file_read\<close>
  does not show that, and every statement below about a read that asks for more than
  the file holds is made for counts up to the \<open>read_limit\<close> only.
\<close>

definition file_read :: "int \<Rightarrow> handle \<Rightarrow> (exn + byte list) \<times> handle" where
  "file_read n h =
     (if fmode h \<noteq> RD then (Inl UnsupportedOperation, h)
      else if n < - 1 then (Inl ValueError, h)
      else if closed h then (Inl ValueError, h)
      else
        (let rest = drop (pos h) (content h);
             bs = (if n < 0 then rest else take (nat n) rest)
         in (Inr bs, h\<lparr>pos := pos h + length bs\<rparr>)))"

text \<open>
  \<open>f.write(bs)\<close>: in mode \<open>w\<close> the bytes go to the current position, in mode \<open>a\<close> to
  the end of the file.
\<close>

definition file_write :: "byte list \<Rightarrow> handle \<Rightarrow> (exn + unit) \<times> handle" where
  "file_write bs h =
     (if fmode h = RD then (Inl UnsupportedOperation, h)
      else if closed h then (Inl ValueError, h)
      else
        (let p = (if fmode h = AP then length (content h) else pos h)
         in (Inr (),
             h\<lparr>content := take p (content h) @ bs @ drop (p + length bs) (content h),
               pos := p + length bs\<rparr>)))"

definition file_close :: "handle \<Rightarrow> handle" where
  "file_close h = h\<lparr>closed := True\<rparr>"

text \<open>
  \<open>open(path, mode + 'b')\<close> on a path whose file holds \<open>bs\<close>, for the modes
  \<open>r\<close>, \<open>w\<close> (the file is truncated) and \<open>a\<close> (the position starts at the end).
\<close>

definition file_open :: "byte list \<Rightarrow> fmode \<Rightarrow> handle" where
  "file_open bs m =
     \<lparr>content = (if m = WR then [] else bs),
      pos = (if m = AP then length bs else 0),
      fmode = m,
      closed = False\<rparr>"

subsection \<open>\<open>str.format\<close> with \<open>{:d}\<close>\<close>

definition digit_char :: "nat \<Rightarrow> char" where
  "digit_char d = char_of (48 + d)"

fun str_of_nat :: "nat \<Rightarrow> string" where
  "str_of_nat n = (if n < 10 then [digit_char n] else str_of_nat (n div 10) @ [digit_char (n mod 10)])"

definition format_d :: "int \<Rightarrow> string" where
  "format_d n = (if n < 0 then CHR ''-'' # str_of_nat (nat (- n)) else str_of_nat (nat n))"

subsection \<open>The \<open>struct\<close> module, native mode\<close>

text \<open>
  A format is a sequence of items, each an optional decimal repeat count followed by a
  code; white space between items is skipped. The codes modelled are the six this class
  uses: \<open>b h i l\<close> (signed integers) and \<open>f d\<close> (IEEE floats). A character that is no
  code, or a count with no code after it, is \<open>struct.error\<close>.

  The class never writes another code of the module, a byte-order prefix, a character
  outside ASCII, a null character, or two different codes into one format. Such formats
  are beyond this fragment: \<open>struct_unpack\<close> and \<open>struct_pack\<close> below answer
  \<open>NotModelled\<close> for them.
\<close>

definition beyond_fragment :: "string \<Rightarrow> bool" where
  "beyond_fragment fmt =
     (list_ex (\<lambda>c. c \<in> set ''xcB?HILqQnNespPFD'') fmt
      \<or> list_ex (\<lambda>c. (of_char c :: nat) = 0 \<or> 128 \<le> (of_char c :: nat)) fmt
      \<or> (case fmt of [] \<Rightarrow> False | c # cs \<Rightarrow> c \<in> set ''@=<>!''))"

definition mixed :: "(nat \<times> char) list \<Rightarrow> bool" where
  "mixed its = (case its of [] \<Rightarrow> False | (n, c) # rest \<Rightarrow> list_ex (\<lambda>(m, d). d \<noteq> c) rest)"

definition is_space :: "char \<Rightarrow> bool" where
  "is_space c = ((of_char c :: nat) \<in> {9, 10, 11, 12, 13, 32})"

definition is_digit :: "char \<Rightarrow> bool" where
  "is_digit c = (48 \<le> (of_char c :: nat) \<and> (of_char c :: nat) \<le> 57)"

definition digit_val :: "char \<Rightarrow> nat" where
  "digit_val c = of_char c - 48"

definition is_code :: "char \<Rightarrow> bool" where
  "is_code c = (c \<in> set ''bhilfd'')"

fun parse_items :: "nat option \<Rightarrow> string \<Rightarrow> (nat \<times> char) list option" where
  "parse_items None [] = Some []"
| "parse_items (Some n) [] = None"
| "parse_items cnt (c # cs) =
     (if cnt = None \<and> is_space c then parse_items None cs
      else if is_digit c then
        parse_items (Some ((case cnt of None \<Rightarrow> 0 | Some n \<Rightarrow> n) * 10 + digit_val c)) cs
      else if is_code c then
        map_option (Cons (case cnt of None \<Rightarrow> 1 | Some n \<Rightarrow> n, c)) (parse_items None cs)
      else None)"

definition itemsize :: "platform \<Rightarrow> char \<Rightarrow> nat" where
  "itemsize P c =
     (if c = CHR ''b'' then 1
      else if c = CHR ''h'' then 2
      else if c = CHR ''i'' then 4
      else if c = CHR ''l'' then long_size P
      else if c = CHR ''f'' then 4
      else 8)"

text \<open>
  Native alignment: each item starts at a multiple of its own size. With one code in a
  format this never inserts padding.
\<close>

definition align_up :: "nat \<Rightarrow> nat \<Rightarrow> nat" where
  "align_up off a = (if a = 0 then off else ((off + a - 1) div a) * a)"

fun calcsize :: "platform \<Rightarrow> nat \<Rightarrow> (nat \<times> char) list \<Rightarrow> nat" where
  "calcsize P off [] = off"
| "calcsize P off ((n, c) # its) =
     calcsize P (align_up off (itemsize P c) + n * itemsize P c) its"

fun le_nat :: "byte list \<Rightarrow> nat" where
  "le_nat [] = 0"
| "le_nat (b # bs) = unat b + 256 * le_nat bs"

definition native_nat :: "platform \<Rightarrow> byte list \<Rightarrow> nat" where
  "native_nat P bs = le_nat (if big_endian P then rev bs else bs)"

definition to_signed :: "nat \<Rightarrow> nat \<Rightarrow> int" where
  "to_signed w n = (if 2 ^ (8 * w - 1) \<le> n then int n - 2 ^ (8 * w) else int n)"

definition decode_value :: "platform \<Rightarrow> char \<Rightarrow> byte list \<Rightarrow> scalar" where
  "decode_value P c bs =
     (if c = CHR ''f'' then FloatV (Binary32 (native_nat P bs))
      else if c = CHR ''d'' then FloatV (Binary64 (native_nat P bs))
      else IntV (to_signed (length bs) (native_nat P bs)))"

text \<open>\<open>n\<close> consecutive values of one code, from the start of \<open>buf\<close>.\<close>

definition decode_run :: "platform \<Rightarrow> char \<Rightarrow> nat \<Rightarrow> byte list \<Rightarrow> scalar list" where
  "decode_run P c n buf =
     map (\<lambda>k. decode_value P c (take (itemsize P c) (drop (k * itemsize P c) buf))) [0..<n]"

fun unpack_items :: "platform \<Rightarrow> nat \<Rightarrow> byte list \<Rightarrow> (nat \<times> char) list \<Rightarrow> scalar list" where
  "unpack_items P off buf [] = []"
| "unpack_items P off buf ((n, c) # its) =
     (let sz = itemsize P c; start = align_up off sz
      in decode_run P c n (drop start buf) @ unpack_items P (start + n * sz) buf its)"

definition struct_unpack :: "platform \<Rightarrow> string \<Rightarrow> byte list \<Rightarrow> exn + scalar list" where
  "struct_unpack P fmt buf =
     (if beyond_fragment fmt then Inl NotModelled
      else
        (case parse_items None fmt of
           None \<Rightarrow> Inl StructError
         | Some its \<Rightarrow>
             if mixed its then Inl NotModelled
             else if length buf \<noteq> calcsize P 0 its then Inl StructError
             else Inr (unpack_items P 0 buf its)))"

text \<open>
  \<open>struct.pack\<close>: the number of values must be the number of items the format asks
  for, and a value packed with an integer code must be an integer within the range of the
  width; otherwise \<open>struct.error\<close>.
\<close>

fun nat_bytes :: "nat \<Rightarrow> nat \<Rightarrow> byte list" where
  "nat_bytes 0 n = []"
| "nat_bytes (Suc w) n = word_of_nat (n mod 256) # nat_bytes w (n div 256)"

definition native_bytes :: "platform \<Rightarrow> nat \<Rightarrow> nat \<Rightarrow> byte list" where
  "native_bytes P w n = (if big_endian P then rev (nat_bytes w n) else nat_bytes w n)"

definition is_float_code :: "char \<Rightarrow> bool" where
  "is_float_code c = (c = CHR ''f'' \<or> c = CHR ''d'')"

text \<open>The range of a signed integer of \<open>w\<close> bytes, and its two's-complement bytes.\<close>

definition in_range :: "nat \<Rightarrow> int \<Rightarrow> bool" where
  "in_range w i = (- (2 ^ (8 * w - 1)) \<le> i \<and> i < 2 ^ (8 * w - 1))"

definition int_bytes :: "platform \<Rightarrow> nat \<Rightarrow> int \<Rightarrow> byte list" where
  "int_bytes P w i = native_bytes P w (nat (i mod 2 ^ (8 * w)))"

definition encode_value :: "platform \<Rightarrow> char \<Rightarrow> scalar \<Rightarrow> exn + byte list" where
  "encode_value P c v =
     (if is_float_code c then pack_float P c v
      else
        (case v of
           IntV i \<Rightarrow>
             (let w = itemsize P c
              in if in_range w i then Inr (int_bytes P w i) else Inl StructError)
         | _ \<Rightarrow> Inl StructError))"

fun encode_many :: "platform \<Rightarrow> char \<Rightarrow> scalar list \<Rightarrow> exn + byte list" where
  "encode_many P c [] = Inr []"
| "encode_many P c (v # vs) =
     bind_exn (encode_value P c v) (\<lambda>bs.
       bind_exn (encode_many P c vs) (\<lambda>rest. Inr (bs @ rest)))"

fun pack_items :: "platform \<Rightarrow> nat \<Rightarrow> (nat \<times> char) list \<Rightarrow> scalar list \<Rightarrow> exn + byte list" where
  "pack_items P off [] vs = Inr []"
| "pack_items P off ((n, c) # its) vs =
     (let sz = itemsize P c; start = align_up off sz
      in bind_exn (encode_many P c (take n vs)) (\<lambda>bs.
           bind_exn (pack_items P (start + n * sz) its (drop n vs)) (\<lambda>rest.
             Inr (replicate (start - off) 0 @ bs @ rest))))"

definition struct_pack :: "platform \<Rightarrow> string \<Rightarrow> scalar list \<Rightarrow> exn + byte list" where
  "struct_pack P fmt vs =
     (if beyond_fragment fmt then Inl NotModelled
      else
        (case parse_items None fmt of
           None \<Rightarrow> Inl StructError
         | Some its \<Rightarrow>
             if mixed its then Inl NotModelled
             else if length vs \<noteq> sum_list (map fst its) then Inl StructError
             else pack_items P 0 its vs))"

subsection \<open>\<open>bytes.decode\<close> of at most one byte\<close>

datatype encoding = Utf8 | Ascii | Latin1

definition bytes_decode :: "encoding \<Rightarrow> byte list \<Rightarrow> exn + string" where
  "bytes_decode enc bs =
     (if enc = Latin1 then Inr (map (\<lambda>b. char_of (unat b)) bs)
      else if list_all (\<lambda>b. unat b < 128) bs then Inr (map (\<lambda>b. char_of (unat b)) bs)
      else Inl UnicodeDecodeError)"

section \<open>The methods of \<open>BinaryFile\<close>\<close>

text \<open>
  An instance is modelled by its file object \<open>self.f\<close>; \<open>self.path\<close> and
  \<open>self.mode\<close> are not read after construction.
\<close>

subsection \<open>Scope entry and exit, close\<close>

text \<open>
  What \<open>__exit__\<close> hands back to the \<open>with\<close> statement: the instance itself. The
  class defines neither \<open>__bool__\<close> nor \<open>__len__\<close>, so an instance is true.
\<close>

datatype retval = SelfV | NoneV | FalseV

definition truthy :: "retval \<Rightarrow> bool" where
  "truthy r = (r = SelfV)"

definition enter :: "handle \<Rightarrow> handle" where
  "enter h = h"

text \<open>
  \<open>__exit__\<close> closes the file, prints the exception if there is one (the second
  component lists what was printed) and returns \<open>self\<close>.
\<close>

definition exit :: "exn option \<Rightarrow> handle \<Rightarrow> retval \<times> exn list \<times> handle" where
  "exit exc h =
     (let h' = file_close h
      in (SelfV, (case exc of None \<Rightarrow> [] | Some e \<Rightarrow> [e]), h'))"

definition close :: "handle \<Rightarrow> handle" where
  "close h = file_close h"

text \<open>
  The \<open>with\<close> statement of Python around a body that uses the instance: when the body
  raises, \<open>__exit__\<close> is called with the exception, and the exception is raised again
  exactly when the value \<open>__exit__\<close> returned is false.
\<close>

definition with_stmt ::
  "(handle \<Rightarrow> (exn + 'a) \<times> handle) \<Rightarrow> handle \<Rightarrow> (exn + 'a option) \<times> exn list \<times> handle" where
  "with_stmt body h =
     (case body (enter h) of
        (Inr v, h1) \<Rightarrow>
          (case exit None h1 of (r, out, h2) \<Rightarrow> (Inr (Some v), out, h2))
      | (Inl e, h1) \<Rightarrow>
          (case exit (Some e) h1 of (r, out, h2) \<Rightarrow>
             (if truthy r then (Inr None, out, h2) else (Inl e, out, h2))))"

subsection \<open>Raw read, unpack, characters and lines\<close>

definition read :: "int \<Rightarrow> handle \<Rightarrow> (exn + byte list) \<times> handle" where
  "read N h = file_read N h"

definition unpack :: "platform \<Rightarrow> string \<Rightarrow> byte list \<Rightarrow> exn + scalar list" where
  "unpack P fmt buf =
     (case struct_unpack P fmt buf of
        Inl e \<Rightarrow> (if e = StructError then Inl IOError else Inl e)
      | Inr vs \<Rightarrow> Inr vs)"

definition read_char :: "encoding \<Rightarrow> handle \<Rightarrow> (exn + string) \<times> handle" where
  "read_char enc h =
     (case file_read 1 h of (r, h') \<Rightarrow> (bind_exn r (bytes_decode enc), h'))"

function readline_loop ::
  "encoding \<Rightarrow> string \<Rightarrow> string \<Rightarrow> handle \<Rightarrow> (exn + string) \<times> handle" where
  "readline_loop enc s b h =
     (if b = [CHR 0x0A] \<or> b = [] then (Inr (s @ b), h)
      else
        (case read_char enc h of
           (Inl e, h') \<Rightarrow> (Inl e, h')
         | (Inr b', h') \<Rightarrow> readline_loop enc (s @ b) b' h'))"
  by pat_completeness auto

termination
proof (relation "measure (\<lambda>(enc, s, b, h). remaining h + length b)")
  show "wf (measure (\<lambda>(enc, s, b, h). remaining h + length b))"
    by simp
next
  fix enc :: encoding and s b :: string and h h' :: handle and x b'
  assume nb: "\<not> (b = [CHR 0x0A] \<or> b = [])"
    and rc: "(x, h') = read_char enc h" and x: "x = Inr b'"
  from rc x have "remaining h' + length b' = remaining h"
    by (auto simp: read_char_def file_read_def remaining_def bind_exn_def bytes_decode_def
        Let_def split: if_splits)
  moreover from nb have "0 < length b" by simp
  ultimately show "((enc, s @ b, b', h'), (enc, s, b, h))
      \<in> measure (\<lambda>(enc, s, b, h). remaining h + length b)"
    by simp
qed

definition readline :: "encoding \<Rightarrow> handle \<Rightarrow> (exn + string) \<times> handle" where
  "readline enc h =
     (case read_char enc h of
        (Inl e, h') \<Rightarrow> (Inl e, h')
      | (Inr b, h') \<Rightarrow> readline_loop enc [] b h')"

subsection \<open>Typed reads\<close>

text \<open>\<open>t[0]\<close> and \<open>t[:N]\<close> on a tuple.\<close>

definition index0 :: "'a list \<Rightarrow> exn + 'a" where
  "index0 t = (case t of [] \<Rightarrow> Inl IndexError | v # _ \<Rightarrow> Inr v)"

definition slice_to :: "int \<Rightarrow> 'a list \<Rightarrow> 'a list" where
  "slice_to N t = (if 0 \<le> N then take (nat N) t else take (length t - nat (- N)) t)"

definition read_int1 :: "platform \<Rightarrow> int \<Rightarrow> handle \<Rightarrow> (exn + pyval) \<times> handle" where
  "read_int1 P N h =
     (if N = 1 then
        (case file_read 1 h of (r, h') \<Rightarrow>
           (bind_exn r (\<lambda>buf. bind_exn (unpack P ''b'' buf) (\<lambda>t.
              bind_exn (index0 t) (\<lambda>v. Inr (Scalar v)))), h'))
      else
        (case file_read (N * 1) h of (r, h') \<Rightarrow>
           (bind_exn r (\<lambda>buf. bind_exn (unpack P ''{:d}b'' buf) (\<lambda>t.
              Inr (TupleV (slice_to N t)))), h')))"

definition read_int2 :: "platform \<Rightarrow> int \<Rightarrow> handle \<Rightarrow> (exn + pyval) \<times> handle" where
  "read_int2 P N h =
     (if N = 1 then
        (case file_read 2 h of (r, h') \<Rightarrow>
           (bind_exn r (\<lambda>buf. bind_exn (unpack P ''h'' buf) (\<lambda>t.
              bind_exn (index0 t) (\<lambda>v. Inr (Scalar v)))), h'))
      else
        (case file_read (N * 2) h of (r, h') \<Rightarrow>
           (bind_exn r (\<lambda>buf. bind_exn (unpack P (format_d N @ ''h'') buf) (\<lambda>t.
              Inr (TupleV (slice_to N t)))), h')))"

definition read_int4 :: "platform \<Rightarrow> int \<Rightarrow> handle \<Rightarrow> (exn + pyval) \<times> handle" where
  "read_int4 P N h =
     (if N = 1 then
        (case file_read 4 h of (r, h') \<Rightarrow>
           (bind_exn r (\<lambda>buf. bind_exn (unpack P ''i'' buf) (\<lambda>t.
              bind_exn (index0 t) (\<lambda>v. Inr (Scalar v)))), h'))
      else
        (case file_read (N * 4) h of (r, h') \<Rightarrow>
           (bind_exn r (\<lambda>buf. bind_exn (unpack P (format_d N @ ''i'') buf) (\<lambda>t.
              Inr (TupleV (slice_to N t)))), h')))"

definition read_int8 :: "platform \<Rightarrow> int \<Rightarrow> handle \<Rightarrow> (exn + pyval) \<times> handle" where
  "read_int8 P N h =
     (if N = 1 then
        (case file_read 8 h of (r, h') \<Rightarrow>
           (bind_exn r (\<lambda>buf. bind_exn (unpack P ''l'' buf) (\<lambda>t.
              bind_exn (index0 t) (\<lambda>v. Inr (Scalar v)))), h'))
      else
        (case file_read (N * 8) h of (r, h') \<Rightarrow>
           (bind_exn r (\<lambda>buf. bind_exn (unpack P (format_d N @ ''l'') buf) (\<lambda>t.
              Inr (TupleV (slice_to N t)))), h')))"

definition read_int :: "platform \<Rightarrow> int \<Rightarrow> handle \<Rightarrow> (exn + pyval) \<times> handle" where
  "read_int P N h = read_int4 P N h"

definition read_float :: "platform \<Rightarrow> int \<Rightarrow> dtype \<Rightarrow> handle \<Rightarrow> (exn + pyval) \<times> handle" where
  "read_float P N dt h =
     (if N = 1 then
        (case file_read 4 h of (r, h') \<Rightarrow>
           (bind_exn r (\<lambda>buf. bind_exn (unpack P ''f'' buf) (\<lambda>t.
              bind_exn (index0 t) (\<lambda>v. Inr (Scalar (ConvV dt v))))), h'))
      else
        (case file_read (N * 4) h of (r, h') \<Rightarrow>
           (bind_exn r (\<lambda>buf. bind_exn (unpack P (format_d N @ ''f'') buf) (\<lambda>t.
              Inr (ListV (map (ConvV dt) (slice_to N t))))), h')))"

definition read_double :: "platform \<Rightarrow> int \<Rightarrow> handle \<Rightarrow> (exn + pyval) \<times> handle" where
  "read_double P N h =
     (if N = 1 then
        (case file_read 8 h of (r, h') \<Rightarrow>
           (bind_exn r (\<lambda>buf. bind_exn (unpack P ''d'' buf) (\<lambda>t.
              bind_exn (index0 t) (\<lambda>v. Inr (Scalar v)))), h'))
      else
        (case file_read (N * 8) h of (r, h') \<Rightarrow>
           (bind_exn r (\<lambda>buf. bind_exn (unpack P (format_d N @ ''d'') buf) (\<lambda>t.
              Inr (TupleV (slice_to N t)))), h')))"

definition read_real4 :: "platform \<Rightarrow> int \<Rightarrow> handle \<Rightarrow> (exn + pyval) \<times> handle" where
  "read_real4 P N h = read_float P N NpFloat32 h"

definition read_real8 :: "platform \<Rightarrow> int \<Rightarrow> handle \<Rightarrow> (exn + pyval) \<times> handle" where
  "read_real8 P N h = read_float P N NpFloat64 h"

subsection \<open>Typed writes\<close>

text \<open>
  \<open>hasattr(val, '__iter__')\<close>: a tuple or a list has it, a number has not.
  \<open>elems\<close> gives the values handed to \<open>struct.pack\<close>: \<open>*val\<close> for a sequence,
  \<open>val\<close> itself otherwise.
\<close>

definition has_iter :: "pyval \<Rightarrow> bool" where
  "has_iter val = (case val of Scalar v \<Rightarrow> False | TupleV vs \<Rightarrow> True | ListV vs \<Rightarrow> True)"

definition elems :: "pyval \<Rightarrow> scalar list" where
  "elems val = (case val of Scalar v \<Rightarrow> [v] | TupleV vs \<Rightarrow> vs | ListV vs \<Rightarrow> vs)"

definition write_type :: "platform \<Rightarrow> pyval \<Rightarrow> string \<Rightarrow> handle \<Rightarrow> (exn + unit) \<times> handle" where
  "write_type P val ty h =
     (if has_iter val then
        (let N = int (length (elems val))
         in case struct_pack P (format_d N @ ty) (elems val) of
              Inl e \<Rightarrow> (Inl e, h)
            | Inr bs \<Rightarrow> file_write bs h)
      else
        (case struct_pack P ty (elems val) of
           Inl e \<Rightarrow> (Inl e, h)
         | Inr bs \<Rightarrow> file_write bs h))"

definition write_int1 :: "platform \<Rightarrow> pyval \<Rightarrow> handle \<Rightarrow> (exn + unit) \<times> handle" where
  "write_int1 P val h = write_type P val ''b'' h"

definition write_int2 :: "platform \<Rightarrow> pyval \<Rightarrow> handle \<Rightarrow> (exn + unit) \<times> handle" where
  "write_int2 P val h = write_type P val ''h'' h"

definition write_int4 :: "platform \<Rightarrow> pyval \<Rightarrow> handle \<Rightarrow> (exn + unit) \<times> handle" where
  "write_int4 P val h = write_type P val ''i'' h"

definition write_int8 :: "platform \<Rightarrow> pyval \<Rightarrow> handle \<Rightarrow> (exn + unit) \<times> handle" where
  "write_int8 P val h = write_type P val ''l'' h"

definition write_int :: "platform \<Rightarrow> pyval \<Rightarrow> handle \<Rightarrow> (exn + unit) \<times> handle" where
  "write_int P val h = write_int4 P val h"

definition write_float :: "platform \<Rightarrow> pyval \<Rightarrow> handle \<Rightarrow> (exn + unit) \<times> handle" where
  "write_float P val h = write_type P val ''f'' h"

definition write_double :: "platform \<Rightarrow> pyval \<Rightarrow> handle \<Rightarrow> (exn + unit) \<times> handle" where
  "write_double P val h = write_type P val ''d'' h"


subsection \<open>The numbers behind floating-point values\<close>

text \<open>
  An IEEE number is a sign with a non-negative rational magnitude, an infinity, or NaN.
  \<open>ieee_value eb fb n\<close> reads the pattern \<open>n\<close> in the format with \<open>eb\<close> exponent bits
  and \<open>fb\<close> fraction bits (8 and 23 for binary32, 11 and 52 for binary64).
\<close>

datatype fval = Finite bool rat | Infinite bool | NaN

definition bias :: "nat \<Rightarrow> int" where
  "bias eb = 2 ^ (eb - 1) - 1"

definition ieee_value :: "nat \<Rightarrow> nat \<Rightarrow> nat \<Rightarrow> fval" where
  "ieee_value eb fb n =
     (let s = odd (n div 2 ^ (eb + fb)); e = n div 2 ^ fb mod 2 ^ eb; m = n mod 2 ^ fb
      in if e = 2 ^ eb - 1 then (if m = 0 then Infinite s else NaN)
         else if e = 0 then Finite s (of_nat m * power_int 2 (1 - bias eb - int fb))
         else Finite s (of_nat (2 ^ fb + m) * power_int 2 (int e - bias eb - int fb)))"

text \<open>
  Conversion to a format rounds to the nearest number of the format, ties to the even
  fraction: \<open>find_exp\<close> looks for the exponent of the result, counting up from the
  smallest one of the format, and the magnitude is rounded to a multiple of the unit in
  the last place at that exponent. A result beyond the largest number is an infinity.
\<close>

fun find_exp :: "nat \<Rightarrow> rat \<Rightarrow> int \<Rightarrow> int" where
  "find_exp 0 x e = e"
| "find_exp (Suc k) x e = (if x < power_int 2 (e + 1) then e else find_exp k x (e + 1))"

definition round_half_even :: "rat \<Rightarrow> int" where
  "round_half_even r =
     (let f = \<lfloor>r\<rfloor>; d = r - of_int f
      in if d < 1 / 2 then f else if 1 / 2 < d then f + 1 else if even f then f else f + 1)"

definition ieee_round :: "nat \<Rightarrow> nat \<Rightarrow> fval \<Rightarrow> fval" where
  "ieee_round eb fb v =
     (case v of
        Finite s x \<Rightarrow>
          (if power_int 2 (bias eb + 1) \<le> x then Infinite s
           else
             (let e = find_exp (nat (2 * bias eb - 1)) x (1 - bias eb);
                  q = power_int 2 (e - int fb);
                  y = of_int (round_half_even (x / q)) * q
              in if power_int 2 (bias eb + 1) \<le> y then Infinite s else Finite s y))
      | Infinite s \<Rightarrow> Infinite s
      | NaN \<Rightarrow> NaN)"

text \<open>
  The number a floating-point scalar stands for. A Python float and a \<open>numpy.float64\<close>
  are binary64 numbers, a \<open>numpy.float32\<close> is a binary32 number. Integers have none here.
\<close>

fun float_value :: "scalar \<Rightarrow> fval option" where
  "float_value (IntV i) = None"
| "float_value (FloatV (Binary32 n)) = Some (ieee_value 8 23 n)"
| "float_value (FloatV (Binary64 n)) = Some (ieee_value 11 52 n)"
| "float_value (ConvV PyFloat v) = map_option (ieee_round 11 52) (float_value v)"
| "float_value (ConvV NpFloat32 v) = map_option (ieee_round 8 23) (float_value v)"
| "float_value (ConvV NpFloat64 v) = map_option (ieee_round 11 52) (float_value v)"

section \<open>Properties\<close>

declare str_of_nat.simps [simp del]
declare readline_loop.simps [simp del]

subsection \<open>Format strings\<close>

lemma digit_char_props:
  "d < 10 \<Longrightarrow> is_digit (digit_char d) \<and> \<not> is_space (digit_char d) \<and> digit_val (digit_char d) = d"
  by (simp add: is_digit_def is_space_def digit_val_def digit_char_def)

lemma code_props: "is_code c \<Longrightarrow> \<not> is_digit c \<and> \<not> is_space c"
  by (auto simp: is_code_def is_digit_def is_space_def)

lemma parse_str_of_nat:
  "parse_items cnt (str_of_nat n @ rest) =
     parse_items (Some ((case cnt of None \<Rightarrow> 0 | Some a \<Rightarrow> a) * 10 ^ length (str_of_nat n) + n)) rest"
proof (induction n arbitrary: cnt rest rule: str_of_nat.induct)
  case (1 n)
  show ?case
  proof (cases "n < 10")
    case True
    then show ?thesis
      using digit_char_props [of n] by (simp add: str_of_nat.simps [of n])
  next
    case False
    then have m: "n mod 10 < 10" by simp
    have s: "str_of_nat n = str_of_nat (n div 10) @ [digit_char (n mod 10)]"
      using False by (simp add: str_of_nat.simps [of n])
    show ?thesis
      using "1.IH" [OF False, of cnt "digit_char (n mod 10) # rest"] digit_char_props [OF m]
      by (simp add: s algebra_simps)
  qed
qed

lemma parse_single: "is_code c \<Longrightarrow> parse_items None [c] = Some [(1, c)]"
  using code_props [of c] by simp

lemma parse_counted:
  "0 \<le> N \<Longrightarrow> is_code c \<Longrightarrow> parse_items None (format_d N @ [c]) = Some [(nat N, c)]"
  using code_props [of c] by (simp add: format_d_def parse_str_of_nat)

lemma parse_negative: "N < 0 \<Longrightarrow> parse_items None (format_d N @ ty) = None"
  by (simp add: format_d_def is_space_def is_digit_def is_code_def)

lemma parse_unformatted: "parse_items None ''{:d}b'' = None"
  by (simp add: is_space_def is_digit_def is_code_def)

text \<open>The formats the class builds lie within the fragment.\<close>

lemma within_fragment:
  assumes "list_all (\<lambda>c. c \<notin> set ''xcB?HILqQnNespPFD'' \<and> c \<notin> set ''@=<>!'' \<and>
     0 < (of_char c :: nat) \<and> (of_char c :: nat) < 128) fmt"
  shows "\<not> beyond_fragment fmt"
proof -
  from assms have ok: "\<And>c. c \<in> set fmt \<Longrightarrow>
      c \<notin> set ''xcB?HILqQnNespPFD'' \<and> c \<notin> set ''@=<>!'' \<and>
      0 < (of_char c :: nat) \<and> (of_char c :: nat) < 128"
    unfolding list_all_iff by blast
  have a: "\<not> list_ex (\<lambda>c. c \<in> set ''xcB?HILqQnNespPFD'') fmt"
    unfolding list_ex_iff using ok by blast
  have b: "\<not> list_ex (\<lambda>c. (of_char c :: nat) = 0 \<or> 128 \<le> (of_char c :: nat)) fmt"
  proof
    assume "list_ex (\<lambda>c. (of_char c :: nat) = 0 \<or> 128 \<le> (of_char c :: nat)) fmt"
    then obtain c where c: "c \<in> set fmt" "(of_char c :: nat) = 0 \<or> 128 \<le> (of_char c :: nat)"
      unfolding list_ex_iff by blast
    from ok [OF c(1)] have "0 < (of_char c :: nat)" "(of_char c :: nat) < 128"
      by blast+
    with c(2) show False by linarith
  qed
  have c: "\<not> (case fmt of [] \<Rightarrow> False | c # cs \<Rightarrow> c \<in> set ''@=<>!'')"
  proof (cases fmt)
    case Nil
    then show ?thesis by (simp only: list.case simp_thms)
  next
    case (Cons x xs)
    then have "x \<in> set fmt" by (simp only: list.set) blast
    from ok [OF this] have "x \<notin> set ''@=<>!''" by blast
    with Cons show ?thesis by (simp only: list.case simp_thms)
  qed
  show ?thesis
    unfolding beyond_fragment_def using a b c by blast
qed

lemma digit_plain:
  "is_digit c \<Longrightarrow> c \<notin> set ''xcB?HILqQnNespPFD'' \<and> c \<notin> set ''@=<>!'' \<and>
     0 < (of_char c :: nat) \<and> (of_char c :: nat) < 128"
  by (auto simp: is_digit_def)

lemma code_plain:
  "is_code c \<Longrightarrow> c \<notin> set ''xcB?HILqQnNespPFD'' \<and> c \<notin> set ''@=<>!'' \<and>
     0 < (of_char c :: nat) \<and> (of_char c :: nat) < 128"
  by (auto simp: is_code_def)

lemma str_of_nat_plain:
  "list_all (\<lambda>c. c \<notin> set ''xcB?HILqQnNespPFD'' \<and> c \<notin> set ''@=<>!'' \<and>
     0 < (of_char c :: nat) \<and> (of_char c :: nat) < 128) (str_of_nat n)"
proof (induction n rule: str_of_nat.induct)
  case (1 n)
  show ?case
  proof (cases "n < 10")
    case True
    with digit_char_props [of n] digit_plain [of "digit_char n"] show ?thesis
      by (simp add: str_of_nat.simps [of n])
  next
    case False
    then have m: "n mod 10 < 10" by simp
    have s: "str_of_nat n = str_of_nat (n div 10) @ [digit_char (n mod 10)]"
      using False by (simp add: str_of_nat.simps [of n])
    from "1.IH" [OF False] digit_char_props [OF m] digit_plain [of "digit_char (n mod 10)"]
    show ?thesis
      by (simp add: s)
  qed
qed

lemma within_single: "is_code c \<Longrightarrow> \<not> beyond_fragment [c]"
  using code_plain [of c] by (intro within_fragment) simp

lemma within_counted: "is_code c \<Longrightarrow> \<not> beyond_fragment (format_d N @ [c])"
  using code_plain [of c] str_of_nat_plain
  by (intro within_fragment) (simp add: format_d_def)

lemma within_unformatted: "\<not> beyond_fragment ''{:d}b''"
  by (simp add: beyond_fragment_def)

lemma not_mixed_single: "\<not> mixed [(n, c)]"
  by (simp add: mixed_def)


subsection \<open>Unpacking\<close>

lemma align_up_0: "align_up 0 a = 0"
  by (simp add: align_up_def)

lemma struct_unpack_single:
  "parse_items None fmt = Some [(n, c)] \<Longrightarrow> \<not> beyond_fragment fmt \<Longrightarrow>
   struct_unpack P fmt buf =
     (if length buf \<noteq> n * itemsize P c then Inl StructError
      else Inr (decode_run P c n buf))"
  by (simp add: struct_unpack_def align_up_0 Let_def not_mixed_single)



lemma unpack_bad_format:
  "parse_items None fmt = None \<Longrightarrow> \<not> beyond_fragment fmt \<Longrightarrow> unpack P fmt buf = Inl IOError"
  by (simp add: unpack_def struct_unpack_def)

lemma unpack_unformatted: "unpack P ''{:d}b'' buf = Inl IOError"
  by (rule unpack_bad_format [OF parse_unformatted within_unformatted])

lemma unpack_single:
  "parse_items None fmt = Some [(n, c)] \<Longrightarrow> \<not> beyond_fragment fmt \<Longrightarrow>
   unpack P fmt buf =
     (if length buf \<noteq> n * itemsize P c then Inl IOError
      else Inr (decode_run P c n buf))"
  by (simp add: unpack_def struct_unpack_single)

lemma unpack_short_single:
  "is_code c \<Longrightarrow> length buf < itemsize P c \<Longrightarrow> unpack P [c] buf = Inl IOError"
  by (simp add: unpack_single [OF parse_single within_single])

lemma unpack_short_counted:
  assumes c: "is_code c" and short: "int (length buf) < N * int (itemsize P c)"
  shows "unpack P (format_d N @ [c]) buf = Inl IOError"
proof (cases "0 \<le> N")
  case True
  have "int (nat N * itemsize P c) = N * int (itemsize P c)"
    using True by simp
  with short have "length buf \<noteq> nat N * itemsize P c"
    by linarith
  then show ?thesis
    by (simp add: unpack_single [OF parse_counted [OF True c] within_counted [OF c]])
next
  case False
  then show ?thesis
    by (simp add: unpack_bad_format parse_negative within_counted [OF c])
qed

subsection \<open>Reads that run into the end of the file\<close>

lemma file_read_open:
  "fmode h = RD \<Longrightarrow> \<not> closed h \<Longrightarrow> 0 \<le> n \<Longrightarrow>
   file_read n h =
     (Inr (take (nat n) (drop (pos h) (content h))), h\<lparr>pos := pos h + min (nat n) (remaining h)\<rparr>)"
  by (simp add: file_read_def Let_def remaining_def min_def)


lemma short_single:
  assumes "fmode h = RD" "\<not> closed h" "is_code c" "w = int (itemsize P c)" "int (remaining h) < w"
  shows "(case file_read w h of (r, h') \<Rightarrow> (bind_exn r (\<lambda>buf. bind_exn (unpack P [c] buf) k), h'))
         = (Inl IOError, h\<lparr>pos := pos h + remaining h\<rparr>)"
proof -
  have w: "0 \<le> w" using assms(4) by simp
  have len: "length (take (nat w) (drop (pos h) (content h))) < itemsize P c"
    using assms(4,5) by (simp add: remaining_def)
  have m: "min (nat w) (remaining h) = remaining h"
    using assms(5) by simp
  show ?thesis
    by (simp only: file_read_open [OF assms(1,2) w] prod.case bind_exn_def sum.case
        unpack_short_single [OF assms(3) len] m)
qed

lemma short_counted:
  assumes "fmode h = RD" "\<not> closed h" "is_code c" "n = N * int (itemsize P c)" "int (remaining h) < n"
  shows "(case file_read n h of (r, h') \<Rightarrow>
            (bind_exn r (\<lambda>buf. bind_exn (unpack P (format_d N @ [c]) buf) k), h'))
         = (Inl IOError, h\<lparr>pos := pos h + remaining h\<rparr>)"
proof -
  have n: "0 \<le> n" using assms(5) by simp
  have "length (take (nat n) (drop (pos h) (content h))) = remaining h"
    using assms(5) by (simp add: remaining_def)
  then have len: "int (length (take (nat n) (drop (pos h) (content h)))) < N * int (itemsize P c)"
    using assms(4,5) by simp
  have m: "min (nat n) (remaining h) = remaining h"
    using assms(5) by simp
  show ?thesis
    by (simp only: file_read_open [OF assms(1,2) n] prod.case bind_exn_def sum.case
        unpack_short_counted [OF assms(3) len] m)
qed

lemma short_unformatted:
  assumes "fmode h = RD" "\<not> closed h" "int (remaining h) < n"
  shows "(case file_read n h of (r, h') \<Rightarrow>
            (bind_exn r (\<lambda>buf. bind_exn (unpack P ''{:d}b'' buf) k), h'))
         = (Inl IOError, h\<lparr>pos := pos h + remaining h\<rparr>)"
proof -
  have n: "0 \<le> n" using assms(3) by simp
  have m: "min (nat n) (remaining h) = remaining h"
    using assms(3) by simp
  show ?thesis
    by (simp only: file_read_open [OF assms(1,2) n] prod.case bind_exn_def sum.case
        unpack_unformatted m)
qed

lemma code_b: "is_code (CHR ''b'')" and code_h: "is_code (CHR ''h'')" and code_i: "is_code (CHR ''i'')"
  and code_l: "is_code (CHR ''l'')" and code_f: "is_code (CHR ''f'')" and code_d: "is_code (CHR ''d'')"
  by (simp_all add: is_code_def)

lemma size_b: "itemsize P (CHR ''b'') = 1" and size_h: "itemsize P (CHR ''h'') = 2"
  and size_i: "itemsize P (CHR ''i'') = 4" and size_l: "itemsize P (CHR ''l'') = long_size P"
  and size_f: "itemsize P (CHR ''f'') = 4" and size_d: "itemsize P (CHR ''d'') = 8"
  by (simp_all add: itemsize_def)

lemma read_int1_short:
  assumes "fmode h = RD" "\<not> closed h" "int (remaining h) < 1 * N"
  shows "read_int1 P N h = (Inl IOError, h\<lparr>pos := pos h + remaining h\<rparr>)"
proof (cases "N = 1")
  case True
  with assms(3) have "int (remaining h) < 1" by simp
  then show ?thesis
    unfolding read_int1_def using True
    by (simp add: short_single [OF assms(1,2) code_b] size_b)
next
  case False
  from assms(3) have "int (remaining h) < N * 1" by simp
  then show ?thesis
    unfolding read_int1_def using False
    by (simp only: if_False short_unformatted [OF assms(1,2)])
qed

lemma read_int2_short:
  assumes "fmode h = RD" "\<not> closed h" "int (remaining h) < 2 * N"
  shows "read_int2 P N h = (Inl IOError, h\<lparr>pos := pos h + remaining h\<rparr>)"
proof (cases "N = 1")
  case True
  with assms(3) have "int (remaining h) < 2" by simp
  then show ?thesis
    unfolding read_int2_def using True
    by (simp add: short_single [OF assms(1,2) code_h] size_h)
next
  case False
  from assms(3) have "int (remaining h) < N * 2" by simp
  then show ?thesis
    unfolding read_int2_def using False
    by (simp add: short_counted [OF assms(1,2) code_h] size_h)
qed

lemma read_int4_short:
  assumes "fmode h = RD" "\<not> closed h" "int (remaining h) < 4 * N"
  shows "read_int4 P N h = (Inl IOError, h\<lparr>pos := pos h + remaining h\<rparr>)"
proof (cases "N = 1")
  case True
  with assms(3) have "int (remaining h) < 4" by simp
  then show ?thesis
    unfolding read_int4_def using True
    by (simp add: short_single [OF assms(1,2) code_i] size_i)
next
  case False
  from assms(3) have "int (remaining h) < N * 4" by simp
  then show ?thesis
    unfolding read_int4_def using False
    by (simp add: short_counted [OF assms(1,2) code_i] size_i)
qed

lemma read_int8_short:
  assumes "fmode h = RD" "\<not> closed h" "long_size P = 8" "int (remaining h) < 8 * N"
  shows "read_int8 P N h = (Inl IOError, h\<lparr>pos := pos h + remaining h\<rparr>)"
proof (cases "N = 1")
  case True
  with assms(4) have "int (remaining h) < 8" by simp
  then show ?thesis
    unfolding read_int8_def using True
    by (simp add: short_single [OF assms(1,2) code_l] size_l assms(3))
next
  case False
  from assms(4) have "int (remaining h) < N * 8" by simp
  then show ?thesis
    unfolding read_int8_def using False
    by (simp add: short_counted [OF assms(1,2) code_l] size_l assms(3))
qed

lemma read_float_short:
  assumes "fmode h = RD" "\<not> closed h" "int (remaining h) < 4 * N"
  shows "read_float P N dt h = (Inl IOError, h\<lparr>pos := pos h + remaining h\<rparr>)"
proof (cases "N = 1")
  case True
  with assms(3) have "int (remaining h) < 4" by simp
  then show ?thesis
    unfolding read_float_def using True
    by (simp add: short_single [OF assms(1,2) code_f] size_f)
next
  case False
  from assms(3) have "int (remaining h) < N * 4" by simp
  then show ?thesis
    unfolding read_float_def using False
    by (simp add: short_counted [OF assms(1,2) code_f] size_f)
qed

lemma read_double_short:
  assumes "fmode h = RD" "\<not> closed h" "int (remaining h) < 8 * N"
  shows "read_double P N h = (Inl IOError, h\<lparr>pos := pos h + remaining h\<rparr>)"
proof (cases "N = 1")
  case True
  with assms(3) have "int (remaining h) < 8" by simp
  then show ?thesis
    unfolding read_double_def using True
    by (simp add: short_single [OF assms(1,2) code_d] size_d)
next
  case False
  from assms(3) have "int (remaining h) < N * 8" by simp
  then show ?thesis
    unfolding read_double_def using False
    by (simp add: short_counted [OF assms(1,2) code_d] size_d)
qed

subsection \<open>Where a read leaves the file\<close>

lemma file_read_enough:
  "fmode h = RD \<Longrightarrow> \<not> closed h \<Longrightarrow> 0 \<le> n \<Longrightarrow> n \<le> int (remaining h) \<Longrightarrow>
   snd (file_read n h) = h\<lparr>pos := pos h + nat n\<rparr>"
  by (simp add: file_read_open min_def)

lemma read_int1_state: "snd (read_int1 P N h) = snd (file_read (N * 1) h)"
  by (simp add: read_int1_def split: prod.split)

lemma read_int2_state: "snd (read_int2 P N h) = snd (file_read (N * 2) h)"
  by (simp add: read_int2_def split: prod.split)

lemma read_int4_state: "snd (read_int4 P N h) = snd (file_read (N * 4) h)"
  by (simp add: read_int4_def split: prod.split)

lemma read_int8_state: "snd (read_int8 P N h) = snd (file_read (N * 8) h)"
  by (simp add: read_int8_def split: prod.split)

lemma read_float_state: "snd (read_float P N dt h) = snd (file_read (N * 4) h)"
  by (simp add: read_float_def split: prod.split)

lemma read_double_state: "snd (read_double P N h) = snd (file_read (N * 8) h)"
  by (simp add: read_double_def split: prod.split)

lemma read_char_state: "snd (read_char enc h) = snd (file_read 1 h)"
  by (simp add: read_char_def split: prod.split)

subsection \<open>Scope exit\<close>

text \<open>
  Claim C1, as stated: after \<open>__exit__\<close> has closed the file, an exception raised
  inside the scope goes on to the caller. It does not: \<open>__exit__\<close> ends with
  \<open>return self\<close>, a true value, which tells the \<open>with\<close> statement to drop the
  exception. Reading a character from the single byte \<open>0xFF\<close> raises
  \<open>UnicodeDecodeError\<close>; inside \<open>with\<close> the statement completes normally.
\<close>

theorem exit_propagates_counterexample:
  "fst (read_char Utf8 \<lparr>content = [0xFF], pos = 0, fmode = RD, closed = False\<rparr>)
     = Inl UnicodeDecodeError
   \<and> fst (with_stmt (read_char Utf8) \<lparr>content = [0xFF], pos = 0, fmode = RD, closed = False\<rparr>)
     = Inr None"
proof -
  have "read_char Utf8 \<lparr>content = [0xFF], pos = 0, fmode = RD, closed = False\<rparr>
        = (Inl UnicodeDecodeError, \<lparr>content = [0xFF], pos = 1, fmode = RD, closed = False\<rparr>)"
    by (simp add: read_char_def file_read_def Let_def bind_exn_def bytes_decode_def)
  then show ?thesis
    by (simp add: with_stmt_def exit_def enter_def truthy_def file_close_def)
qed

text \<open>
  Claim C1, amended: on scope exit \<open>__exit__\<close> always closes the file; an exception
  raised inside the scope is printed and then suppressed, so the \<open>with\<close> statement
  never raises what its body raised.
\<close>

theorem exit_closes_and_suppresses:
  "closed (snd (snd (with_stmt body h)))
   \<and> fst (with_stmt body h) = Inr (case fst (body (enter h)) of Inl e \<Rightarrow> None | Inr v \<Rightarrow> Some v)
   \<and> fst (snd (with_stmt body h)) = (case fst (body (enter h)) of Inl e \<Rightarrow> [e] | Inr v \<Rightarrow> [])"
  by (cases "body (enter h)")
     (simp add: with_stmt_def exit_def truthy_def file_close_def split: sum.split)

subsection \<open>The plain-integer aliases\<close>

text \<open>
  Claim C5: \<open>read_int(N)\<close> returns what \<open>read_int4(N)\<close> returns and leaves the file
  as \<open>read_int4(N)\<close> leaves it, for every file state and count; \<open>write_int(v)\<close> writes
  what \<open>write_int4(v)\<close> writes.
\<close>

theorem read_int_write_int_alias:
  "read_int P N h = read_int4 P N h \<and> write_int P v h' = write_int4 P v h'"
  by (simp add: read_int_def write_int_def)


subsection \<open>\<open>read_int1\<close> with a count\<close>

text \<open>
  Claim C2 says that \<open>read_int1(N)\<close> with \<open>N > 1\<close> returns \<open>N\<close> one-byte
  integers. The method passes the format \<open>'{:d}b'\<close> to \<open>unpack\<close> as it stands
  (the other widths call \<open>.format(N)\<close> on it), and \<open>{\<close> is no format code: on a
  file open for reading that holds at least \<open>N\<close> more bytes, \<open>read_int1(N)\<close> with a
  count \<open>N \<ge> 0\<close> other than 1 reads its \<open>N\<close> bytes and then raises \<open>IOError\<close>.
\<close>

theorem read_int1_count_always_fails:
  "fmode h = RD \<Longrightarrow> \<not> closed h \<Longrightarrow> 0 \<le> N \<Longrightarrow> N \<noteq> 1 \<Longrightarrow> N \<le> int (remaining h) \<Longrightarrow>
   read_int1 P N h = (Inl IOError, h\<lparr>pos := pos h + nat N\<rparr>)"
  by (simp add: read_int1_def file_read_open bind_exn_def unpack_unformatted min_def)

text \<open>With two bytes in the file, \<open>read_int1(2)\<close> consumes both and raises.\<close>

theorem read_int1_count_always_fails_witness:
  "fmode (file_open [1, 2] RD) = RD \<and> \<not> closed (file_open [1, 2] RD) \<and> (0::int) \<le> 2 \<and> (2::int) \<noteq> 1
   \<and> (2::int) \<le> int (remaining (file_open [1, 2] RD))
   \<and> read_int1 example_host 2 (file_open [1, 2] RD) = (Inl IOError, (file_open [1, 2] RD)\<lparr>pos := 2\<rparr>)"
  using read_int1_count_always_fails [of "file_open [1, 2] RD" 2 example_host]
  by (simp add: file_open_def remaining_def)

subsection \<open>Short reads\<close>

lemma file_read_short_state:
  "fmode h = RD \<Longrightarrow> \<not> closed h \<Longrightarrow> int (remaining h) < n \<Longrightarrow>
   snd (file_read n h) = h\<lparr>pos := pos h + remaining h\<rparr>"
  by (simp add: file_read_open min_def)




text \<open>
  Claim C10: a typed read that fails because the file ends early is not undone. On a
  file open for reading, when fewer than the \<open>w \<times> N\<close> bytes asked for are left (and
  the host accepts to read that many), the file is left after the bytes that were there
  to read, \<open>remaining h\<close> of them, on every host; the read has raised \<open>IOError\<close>
  (\<open>read_int8\<close>: on a host whose \<open>long\<close> has 8 bytes).
\<close>

theorem short_read_still_advances:
  "fmode h = RD \<Longrightarrow> \<not> closed h \<Longrightarrow>
   (int (remaining h) < 1 * N \<and> 1 * N \<le> int (read_limit P) \<longrightarrow>
      read_int1 P N h = (Inl IOError, h\<lparr>pos := pos h + remaining h\<rparr>)) \<and>
   (int (remaining h) < 2 * N \<and> 2 * N \<le> int (read_limit P) \<longrightarrow>
      read_int2 P N h = (Inl IOError, h\<lparr>pos := pos h + remaining h\<rparr>)) \<and>
   (int (remaining h) < 4 * N \<and> 4 * N \<le> int (read_limit P) \<longrightarrow>
      read_int4 P N h = (Inl IOError, h\<lparr>pos := pos h + remaining h\<rparr>) \<and>
      read_int P N h = (Inl IOError, h\<lparr>pos := pos h + remaining h\<rparr>) \<and>
      read_float P N dt h = (Inl IOError, h\<lparr>pos := pos h + remaining h\<rparr>) \<and>
      read_real4 P N h = (Inl IOError, h\<lparr>pos := pos h + remaining h\<rparr>) \<and>
      read_real8 P N h = (Inl IOError, h\<lparr>pos := pos h + remaining h\<rparr>)) \<and>
   (int (remaining h) < 8 * N \<and> 8 * N \<le> int (read_limit P) \<longrightarrow>
      read_double P N h = (Inl IOError, h\<lparr>pos := pos h + remaining h\<rparr>) \<and>
      snd (read_int8 P N h) = h\<lparr>pos := pos h + remaining h\<rparr> \<and>
      (long_size P = 8 \<longrightarrow> fst (read_int8 P N h) = Inl IOError))"
  by (simp add: read_int1_short read_int2_short read_int4_short read_int8_short
      read_float_short read_double_short read_int_def read_real4_def read_real8_def
      read_int8_state file_read_short_state mult.commute)

text \<open>Three bytes in the file, four values asked for: the position ends at 3.\<close>

theorem short_read_still_advances_witness:
  "read_int1 example_host 4 (file_open [1, 2, 3] RD) = (Inl IOError, (file_open [1, 2, 3] RD)\<lparr>pos := 3\<rparr>) \<and>
   read_int2 example_host 4 (file_open [1, 2, 3] RD) = (Inl IOError, (file_open [1, 2, 3] RD)\<lparr>pos := 3\<rparr>) \<and>
   read_int4 example_host 4 (file_open [1, 2, 3] RD) = (Inl IOError, (file_open [1, 2, 3] RD)\<lparr>pos := 3\<rparr>) \<and>
   read_int example_host 4 (file_open [1, 2, 3] RD) = (Inl IOError, (file_open [1, 2, 3] RD)\<lparr>pos := 3\<rparr>) \<and>
   read_float example_host 4 PyFloat (file_open [1, 2, 3] RD) = (Inl IOError, (file_open [1, 2, 3] RD)\<lparr>pos := 3\<rparr>) \<and>
   read_real4 example_host 4 (file_open [1, 2, 3] RD) = (Inl IOError, (file_open [1, 2, 3] RD)\<lparr>pos := 3\<rparr>) \<and>
   read_real8 example_host 4 (file_open [1, 2, 3] RD) = (Inl IOError, (file_open [1, 2, 3] RD)\<lparr>pos := 3\<rparr>) \<and>
   read_double example_host 4 (file_open [1, 2, 3] RD) = (Inl IOError, (file_open [1, 2, 3] RD)\<lparr>pos := 3\<rparr>) \<and>
   snd (read_int8 example_host 4 (file_open [1, 2, 3] RD)) = (file_open [1, 2, 3] RD)\<lparr>pos := 3\<rparr> \<and>
   fst (read_int8 example_host 4 (file_open [1, 2, 3] RD)) = Inl IOError"
  using short_read_still_advances [of "file_open [1, 2, 3] RD" 4 example_host PyFloat]
  by (simp add: file_open_def remaining_def example_host_def)

subsection \<open>The position after a read\<close>

text \<open>
  Claim C9: on a file open for reading with at least \<open>w \<times> N\<close> bytes before its end,
  a typed read of width \<open>w\<close> and count \<open>N\<close> leaves the file \<open>w \<times> N\<close> bytes further
  and otherwise as it was, whatever it returns; \<open>read_char\<close> leaves it one byte further.
\<close>

theorem read_advances_by_width_times_count:
  "fmode h = RD \<Longrightarrow> \<not> closed h \<Longrightarrow> 0 \<le> N \<Longrightarrow>
   (1 * N \<le> int (remaining h) \<longrightarrow> snd (read_int1 P N h) = h\<lparr>pos := pos h + nat (1 * N)\<rparr>) \<and>
   (2 * N \<le> int (remaining h) \<longrightarrow> snd (read_int2 P N h) = h\<lparr>pos := pos h + nat (2 * N)\<rparr>) \<and>
   (4 * N \<le> int (remaining h) \<longrightarrow>
      snd (read_int4 P N h) = h\<lparr>pos := pos h + nat (4 * N)\<rparr> \<and>
      snd (read_int P N h) = h\<lparr>pos := pos h + nat (4 * N)\<rparr> \<and>
      snd (read_float P N dt h) = h\<lparr>pos := pos h + nat (4 * N)\<rparr> \<and>
      snd (read_real4 P N h) = h\<lparr>pos := pos h + nat (4 * N)\<rparr> \<and>
      snd (read_real8 P N h) = h\<lparr>pos := pos h + nat (4 * N)\<rparr>) \<and>
   (8 * N \<le> int (remaining h) \<longrightarrow>
      snd (read_int8 P N h) = h\<lparr>pos := pos h + nat (8 * N)\<rparr> \<and>
      snd (read_double P N h) = h\<lparr>pos := pos h + nat (8 * N)\<rparr>) \<and>
   (1 \<le> remaining h \<longrightarrow> snd (read_char enc h) = h\<lparr>pos := pos h + 1\<rparr>)"
  by (simp add: read_int1_state read_int2_state read_int4_state read_int8_state
      read_float_state read_double_state read_char_state read_int_def read_real4_def
      read_real8_def file_read_enough mult.commute)

text \<open>Sixteen bytes in the file, two values asked for.\<close>

theorem read_advances_by_width_times_count_witness:
  "snd (read_int1 example_host 2 (file_open [1, 2, 3, 4, 5, 6, 7, 8, 9, 10, 11, 12, 13, 14, 15, 16] RD))
     = (file_open [1, 2, 3, 4, 5, 6, 7, 8, 9, 10, 11, 12, 13, 14, 15, 16] RD)\<lparr>pos := 2\<rparr> \<and>
   snd (read_int2 example_host 2 (file_open [1, 2, 3, 4, 5, 6, 7, 8, 9, 10, 11, 12, 13, 14, 15, 16] RD))
     = (file_open [1, 2, 3, 4, 5, 6, 7, 8, 9, 10, 11, 12, 13, 14, 15, 16] RD)\<lparr>pos := 4\<rparr> \<and>
   snd (read_int4 example_host 2 (file_open [1, 2, 3, 4, 5, 6, 7, 8, 9, 10, 11, 12, 13, 14, 15, 16] RD))
     = (file_open [1, 2, 3, 4, 5, 6, 7, 8, 9, 10, 11, 12, 13, 14, 15, 16] RD)\<lparr>pos := 8\<rparr> \<and>
   snd (read_float example_host 2 NpFloat32 (file_open [1, 2, 3, 4, 5, 6, 7, 8, 9, 10, 11, 12, 13, 14, 15, 16] RD))
     = (file_open [1, 2, 3, 4, 5, 6, 7, 8, 9, 10, 11, 12, 13, 14, 15, 16] RD)\<lparr>pos := 8\<rparr> \<and>
   snd (read_int8 example_host 2 (file_open [1, 2, 3, 4, 5, 6, 7, 8, 9, 10, 11, 12, 13, 14, 15, 16] RD))
     = (file_open [1, 2, 3, 4, 5, 6, 7, 8, 9, 10, 11, 12, 13, 14, 15, 16] RD)\<lparr>pos := 16\<rparr> \<and>
   snd (read_double example_host 2 (file_open [1, 2, 3, 4, 5, 6, 7, 8, 9, 10, 11, 12, 13, 14, 15, 16] RD))
     = (file_open [1, 2, 3, 4, 5, 6, 7, 8, 9, 10, 11, 12, 13, 14, 15, 16] RD)\<lparr>pos := 16\<rparr> \<and>
   snd (read_char Utf8 (file_open [1, 2, 3, 4, 5, 6, 7, 8, 9, 10, 11, 12, 13, 14, 15, 16] RD))
     = (file_open [1, 2, 3, 4, 5, 6, 7, 8, 9, 10, 11, 12, 13, 14, 15, 16] RD)\<lparr>pos := 1\<rparr>"
  using read_advances_by_width_times_count
    [of "file_open [1, 2, 3, 4, 5, 6, 7, 8, 9, 10, 11, 12, 13, 14, 15, 16] RD" 2 example_host NpFloat32 Utf8]
  by (simp add: file_open_def remaining_def)


subsection \<open>Lines\<close>

lemma byte_lt: "unat (b::byte) < 256"
  using unsigned_less [of b, where ?'a = nat] by simp

lemma char_of_byte_newline: "(char_of (unat (b::byte)) = CHR 0x0A) = (b = 10)"
proof -
  have "take_bit 8 (unat b) = unat b"
    using byte_lt [of b] by (simp add: take_bit_nat_eq_self)
  then show ?thesis
    by (simp add: char_of_eq_iff word_unat_eq_iff)
qed

lemma read_char_at_end:
  "fmode h = RD \<Longrightarrow> \<not> closed h \<Longrightarrow> drop (pos h) (content h) = [] \<Longrightarrow>
   read_char enc h = (Inr [], h)"
  by (simp add: read_char_def file_read_def Let_def bind_exn_def bytes_decode_def)

lemma read_char_next:
  "fmode h = RD \<Longrightarrow> \<not> closed h \<Longrightarrow> drop (pos h) (content h) = b # bs \<Longrightarrow>
   enc = Latin1 \<or> unat b < 128 \<Longrightarrow>
   read_char enc h = (Inr [char_of (unat b)], h\<lparr>pos := pos h + 1\<rparr>)"
  by (auto simp add: read_char_def file_read_def Let_def bind_exn_def bytes_decode_def)

lemma readline_loop_done:
  "b = [CHR 0x0A] \<or> b = [] \<Longrightarrow> readline_loop enc s b h = (Inr (s @ b), h)"
  by (simp add: readline_loop.simps [of enc s b h])

lemma readline_loop_step:
  "b \<noteq> [CHR 0x0A] \<Longrightarrow> b \<noteq> [] \<Longrightarrow> read_char enc h = (Inr b', h') \<Longrightarrow>
   readline_loop enc s b h = readline_loop enc (s @ b) b' h'"
  by (simp add: readline_loop.simps [of enc s b h])

lemma readline_loop_scan:
  assumes "fmode h = RD" "\<not> closed h" "drop (pos h) (content h) = ls @ rest"
    and "list_all (\<lambda>b. (enc = Latin1 \<or> unat b < 128) \<and> b \<noteq> 10) ls"
    and "rest = [] \<or> hd rest = 10"
    and "c \<noteq> CHR 0x0A"
  shows "readline_loop enc s [c] h =
           (Inr (s @ [c] @ map (\<lambda>b. char_of (unat b)) ls @ (if rest = [] then [] else [CHR 0x0A])),
            h\<lparr>pos := pos h + length ls + (if rest = [] then 0 else 1)\<rparr>)"
  using assms
proof (induction ls arbitrary: s c h)
  case Nil
  show ?case
  proof (cases rest)
    case Nil
    with Nil.prems have "read_char enc h = (Inr [], h)"
      by (simp add: read_char_at_end)
    with Nil.prems(6) have "readline_loop enc s [c] h = readline_loop enc (s @ [c]) [] h"
      by (simp add: readline_loop_step)
    with Nil show ?thesis
      by (simp add: readline_loop_done)
  next
    case (Cons r rs)
    with Nil.prems have d: "drop (pos h) (content h) = 10 # rs" by simp
    have "read_char enc h = (Inr [char_of (unat (10::byte))], h\<lparr>pos := pos h + 1\<rparr>)"
      by (rule read_char_next [OF Nil.prems(1,2) d]) simp
    then have "read_char enc h = (Inr [CHR 0x0A], h\<lparr>pos := pos h + 1\<rparr>)"
      by (simp add: char_of_eq_iff)
    with Nil.prems(6)
    have "readline_loop enc s [c] h = readline_loop enc (s @ [c]) [CHR 0x0A] (h\<lparr>pos := pos h + 1\<rparr>)"
      by (simp add: readline_loop_step)
    with Cons show ?thesis
      by (simp add: readline_loop_done)
  qed
next
  case (Cons l ls)
  let ?h1 = "h\<lparr>pos := pos h + 1\<rparr>"
  from Cons.prems have d: "drop (pos h) (content h) = l # (ls @ rest)" by simp
  from Cons.prems have ok: "enc = Latin1 \<or> unat l < 128" and nl: "l \<noteq> 10" by simp_all
  have rc: "read_char enc h = (Inr [char_of (unat l)], ?h1)"
    by (rule read_char_next [OF Cons.prems(1,2) d ok])
  have c': "char_of (unat l) \<noteq> CHR 0x0A"
    using nl by (simp add: char_of_byte_newline)
  have "drop (Suc (pos h)) (content h) = tl (drop (pos h) (content h))"
    by (simp add: drop_Suc tl_drop)
  with d have d1: "drop (pos ?h1) (content ?h1) = ls @ rest" by simp
  have step: "readline_loop enc s [c] h = readline_loop enc (s @ [c]) [char_of (unat l)] ?h1"
    using Cons.prems(6) rc by (simp add: readline_loop_step)
  have "readline_loop enc (s @ [c]) [char_of (unat l)] ?h1 =
          (Inr ((s @ [c]) @ [char_of (unat l)] @ map (\<lambda>b. char_of (unat b)) ls
                 @ (if rest = [] then [] else [CHR 0x0A])),
           ?h1\<lparr>pos := pos ?h1 + length ls + (if rest = [] then 0 else 1)\<rparr>)"
    using Cons.prems by (intro Cons.IH [OF _ _ d1 _ _ c']) simp_all
  with step show ?case by simp
qed

text \<open>
  Claim C7: \<open>readline\<close> reads one character at a time and stops at the first newline
  or at the end of the file. On a file open for reading whose bytes from the current
  position on are a run \<open>ls\<close> without newline, each decodable on its own, followed
  either by nothing or by a newline, it returns the characters of \<open>ls\<close>, with the
  newline when there is one, and leaves the file after what it returned.
\<close>

theorem readline_returns_line:
  assumes "fmode h = RD" "\<not> closed h" "drop (pos h) (content h) = ls @ rest"
    and "list_all (\<lambda>b. (enc = Latin1 \<or> unat b < 128) \<and> b \<noteq> 10) ls"
    and "rest = [] \<or> hd rest = 10"
  shows "readline enc h =
           (Inr (map (\<lambda>b. char_of (unat b)) ls @ (if rest = [] then [] else [CHR 0x0A])),
            h\<lparr>pos := pos h + length ls + (if rest = [] then 0 else 1)\<rparr>)"
proof (cases ls)
  case Nil
  show ?thesis
  proof (cases rest)
    case Nil
    with \<open>ls = []\<close> assms have "read_char enc h = (Inr [], h)"
      by (simp add: read_char_at_end)
    with Nil \<open>ls = []\<close> show ?thesis
      by (simp add: readline_def readline_loop_done)
  next
    case (Cons r rs)
    with \<open>ls = []\<close> assms have d: "drop (pos h) (content h) = 10 # rs" by simp
    have "read_char enc h = (Inr [char_of (unat (10::byte))], h\<lparr>pos := pos h + 1\<rparr>)"
      by (rule read_char_next [OF assms(1,2) d]) simp
    then have "read_char enc h = (Inr [CHR 0x0A], h\<lparr>pos := pos h + 1\<rparr>)"
      by (simp add: char_of_eq_iff)
    with Cons \<open>ls = []\<close> show ?thesis
      by (simp add: readline_def readline_loop_done)
  qed
next
  case (Cons l ls')
  let ?h1 = "h\<lparr>pos := pos h + 1\<rparr>"
  from Cons assms have d: "drop (pos h) (content h) = l # (ls' @ rest)" by simp
  from Cons assms have ok: "enc = Latin1 \<or> unat l < 128" and nl: "l \<noteq> 10" by simp_all
  have rc: "read_char enc h = (Inr [char_of (unat l)], ?h1)"
    by (rule read_char_next [OF assms(1,2) d ok])
  have c': "char_of (unat l) \<noteq> CHR 0x0A"
    using nl by (simp add: char_of_byte_newline)
  have "drop (Suc (pos h)) (content h) = tl (drop (pos h) (content h))"
    by (simp add: drop_Suc tl_drop)
  with d have d1: "drop (pos ?h1) (content ?h1) = ls' @ rest" by simp
  have "readline_loop enc [] [char_of (unat l)] ?h1 =
          (Inr ([] @ [char_of (unat l)] @ map (\<lambda>b. char_of (unat b)) ls'
                 @ (if rest = [] then [] else [CHR 0x0A])),
           ?h1\<lparr>pos := pos ?h1 + length ls' + (if rest = [] then 0 else 1)\<rparr>)"
    using Cons assms by (intro readline_loop_scan [OF _ _ d1 _ _ c']) simp_all
  with rc Cons show ?thesis
    by (simp add: readline_def)
qed

text \<open>
  The bytes of \<open>abc\<close>, newline, \<open>def\<close>: the first call returns \<open>abc\<close> with the newline,
  the second \<open>def\<close> with none, the third the empty string.
\<close>

theorem readline_returns_line_witness:
  "readline Utf8 (file_open [97, 98, 99, 10, 100, 101, 102] RD)
     = (Inr (''abc'' @ [CHR 0x0A]), (file_open [97, 98, 99, 10, 100, 101, 102] RD)\<lparr>pos := 4\<rparr>) \<and>
   readline Utf8 ((file_open [97, 98, 99, 10, 100, 101, 102] RD)\<lparr>pos := 4\<rparr>)
     = (Inr ''def'', (file_open [97, 98, 99, 10, 100, 101, 102] RD)\<lparr>pos := 7\<rparr>) \<and>
   readline Utf8 ((file_open [97, 98, 99, 10, 100, 101, 102] RD)\<lparr>pos := 7\<rparr>)
     = (Inr [], (file_open [97, 98, 99, 10, 100, 101, 102] RD)\<lparr>pos := 7\<rparr>)"
  using readline_returns_line
      [of "file_open [97, 98, 99, 10, 100, 101, 102] RD" "[97, 98, 99]" "[10, 100, 101, 102]" Utf8]
    readline_returns_line
      [of "(file_open [97, 98, 99, 10, 100, 101, 102] RD)\<lparr>pos := 4\<rparr>" "[100, 101, 102]" "[]" Utf8]
    readline_returns_line
      [of "(file_open [97, 98, 99, 10, 100, 101, 102] RD)\<lparr>pos := 7\<rparr>" "[]" "[]" Utf8]
  by (simp add: file_open_def char_of_eq_iff)


subsection \<open>The integer codec\<close>

lemma length_nat_bytes: "length (nat_bytes w n) = w"
  by (induction w arbitrary: n) simp_all

lemma unat_byte_of_nat: "unat (word_of_nat (n mod 256) :: byte) = n mod 256"
  by (simp add: unat_of_nat)

lemma le_nat_nat_bytes: "le_nat (nat_bytes w n) = n mod 256 ^ w"
proof (induction w arbitrary: n)
  case 0
  show ?case by simp
next
  case (Suc w)
  have "n mod (256 * 256 ^ w) = 256 * (n div 256 mod 256 ^ w) + n mod 256"
    by (rule mod_mult2_eq)
  with Suc show ?case
    by (simp add: unat_byte_of_nat)
qed

lemma native_nat_native_bytes: "native_nat P (native_bytes P w n) = n mod 256 ^ w"
  by (simp add: native_nat_def native_bytes_def le_nat_nat_bytes)

lemma length_native_bytes: "length (native_bytes P w n) = w"
  by (simp add: native_bytes_def length_nat_bytes)

lemma to_signed_inverse:
  assumes "0 < w" "- (2 ^ (8 * w - 1)) \<le> i" "i < 2 ^ (8 * w - 1)"
  shows "to_signed w (nat (i mod 2 ^ (8 * w)) mod 256 ^ w) = i"
proof -
  define n where "n = nat (i mod 2 ^ (8 * w))"
  have "8 * w = Suc (8 * w - 1)" using assms(1) by simp
  then have p: "(2::int) ^ (8 * w) = 2 * 2 ^ (8 * w - 1)"
    by (metis power_Suc)
  have q: "(256::nat) ^ w = 2 ^ (8 * w)"
    by (simp add: power_mult)
  have n_int: "int n = i mod 2 ^ (8 * w)"
    by (simp add: n_def)
  have "int n < 2 ^ (8 * w)"
    by (simp add: n_int)
  then have "n < 2 ^ (8 * w)"
    by (metis of_nat_less_iff of_nat_numeral of_nat_power)
  then have r: "n mod 256 ^ w = n"
    by (simp add: q)
  have le: "(2 ^ (8 * w - 1) \<le> n) = ((2::int) ^ (8 * w - 1) \<le> int n)"
    by (metis of_nat_le_iff of_nat_numeral of_nat_power)
  show ?thesis
  proof (cases "0 \<le> i")
    case True
    with assms p have "i mod 2 ^ (8 * w) = i" by simp
    with assms(3) show ?thesis
      unfolding n_def [symmetric] r to_signed_def le n_int by simp
  next
    case False
    have "(i + 2 ^ (8 * w)) mod 2 ^ (8 * w) = i + 2 ^ (8 * w)"
      using False assms(2) p by (intro mod_pos_pos_trivial) simp_all
    then have m: "i mod 2 ^ (8 * w) = i + 2 ^ (8 * w)"
      by simp
    with False assms(2) p show ?thesis
      unfolding n_def [symmetric] r to_signed_def le n_int by simp
  qed
qed

lemma decode_int_bytes:
  assumes "\<not> is_float_code c" "0 < w" "in_range w i"
  shows "decode_value P c (int_bytes P w i) = IntV i"
proof -
  from assms(3) have "- (2 ^ (8 * w - 1)) \<le> i" "i < 2 ^ (8 * w - 1)"
    by (simp_all add: in_range_def)
  from to_signed_inverse [OF assms(2) this] assms(1) show ?thesis
    by (simp add: decode_value_def int_bytes_def is_float_code_def length_native_bytes
        native_nat_native_bytes)
qed

lemma length_int_bytes: "length (int_bytes P w i) = w"
  by (simp add: int_bytes_def length_native_bytes)

lemma encode_many_ints:
  "\<not> is_float_code c \<Longrightarrow> list_all (in_range (itemsize P c)) xs \<Longrightarrow>
   encode_many P c (map IntV xs) = Inr (concat (map (int_bytes P (itemsize P c)) xs))"
  by (induction xs) (simp_all add: encode_value_def bind_exn_def)

lemma decode_run_Suc:
  "decode_run P c (Suc n) buf =
     decode_value P c (take (itemsize P c) buf) # decode_run P c n (drop (itemsize P c) buf)"
  by (simp add: decode_run_def map_upt_Suc add.commute del: upt_Suc)

lemma decode_run_ints:
  "\<not> is_float_code c \<Longrightarrow> 0 < itemsize P c \<Longrightarrow> list_all (in_range (itemsize P c)) xs \<Longrightarrow>
   decode_run P c (length xs) (concat (map (int_bytes P (itemsize P c)) xs) @ rest) = map IntV xs"
proof (induction xs)
  case Nil
  show ?case by (simp add: decode_run_def)
next
  case (Cons x xs)
  then show ?case
    by (simp add: decode_run_Suc length_int_bytes decode_int_bytes)
qed

lemma length_decode_run: "length (decode_run P c n buf) = n"
  by (simp add: decode_run_def)

subsection \<open>Reads that find all their bytes\<close>

lemma enough_single:
  assumes "fmode h = RD" "\<not> closed h" "is_code c" "w = int (itemsize P c)" "w \<le> int (remaining h)"
  shows "(case file_read w h of (r, h') \<Rightarrow> (bind_exn r (\<lambda>buf. bind_exn (unpack P [c] buf) k), h'))
         = (k (decode_run P c 1 (take (itemsize P c) (drop (pos h) (content h)))),
            h\<lparr>pos := pos h + itemsize P c\<rparr>)"
proof -
  have w: "0 \<le> w" "nat w = itemsize P c" using assms(4) by simp_all
  have len: "length (take (itemsize P c) (drop (pos h) (content h))) = 1 * itemsize P c"
    using assms(4,5) by (simp add: remaining_def)
  have m: "min (itemsize P c) (remaining h) = itemsize P c"
    using assms(4,5) by simp
  show ?thesis
    by (simp only: file_read_open [OF assms(1,2) w(1)] w(2) prod.case bind_exn_def sum.case
        unpack_single [OF parse_single [OF assms(3)] within_single [OF assms(3)]] len m) simp
qed

lemma enough_counted:
  assumes "fmode h = RD" "\<not> closed h" "is_code c" "0 \<le> N" "n = N * int (itemsize P c)"
    and "n \<le> int (remaining h)"
  shows "(case file_read n h of (r, h') \<Rightarrow>
            (bind_exn r (\<lambda>buf. bind_exn (unpack P (format_d N @ [c]) buf) k), h'))
         = (k (decode_run P c (nat N) (take (nat N * itemsize P c) (drop (pos h) (content h)))),
            h\<lparr>pos := pos h + nat N * itemsize P c\<rparr>)"
proof -
  have n: "0 \<le> n" "nat n = nat N * itemsize P c"
    using assms(4,5) by (simp_all add: nat_mult_distrib)
  have len: "length (take (nat N * itemsize P c) (drop (pos h) (content h))) = nat N * itemsize P c"
    using assms(6) n by (simp add: remaining_def)
  have m: "min (nat N * itemsize P c) (remaining h) = nat N * itemsize P c"
    using assms(6) n by simp
  show ?thesis
    by (simp only: file_read_open [OF assms(1,2) n(1)] n(2) prod.case bind_exn_def sum.case
        unpack_single [OF parse_counted [OF assms(4,3)] within_counted [OF assms(3)]] len m) simp
qed

lemma bind_exn_Inr: "bind_exn (Inr v) k = k v"
  and bind_exn_Inl: "bind_exn (Inl e) k = Inl e"
  by (simp_all add: bind_exn_def)

lemma index0_decode_run:
  "index0 (decode_run P c (Suc 0) buf) = Inr (decode_value P c (take (itemsize P c) buf))"
  by (simp add: index0_def decode_run_def)

lemma slice_to_decode_run:
  "0 \<le> N \<Longrightarrow> slice_to N (decode_run P c (nat N) buf) = decode_run P c (nat N) buf"
  by (simp add: slice_to_def length_decode_run)

lemma read_int2_enough:
  assumes "fmode h = RD" "\<not> closed h" "0 \<le> N" "2 * N \<le> int (remaining h)"
  shows "read_int2 P N h =
           (Inr (if N = 1 then Scalar (decode_value P (CHR ''h'') (take 2 (drop (pos h) (content h))))
                 else TupleV (decode_run P (CHR ''h'') (nat N) (take (nat N * 2) (drop (pos h) (content h))))),
            h\<lparr>pos := pos h + nat N * 2\<rparr>)"
proof (cases "N = 1")
  case True
  with assms(4) have "2 \<le> int (remaining h)" by simp
  then show ?thesis
    unfolding read_int2_def using True
    by (simp add: enough_single [OF assms(1,2) code_h] size_h index0_decode_run bind_exn_Inr)
next
  case False
  from assms(4) have "N * 2 \<le> int (remaining h)" by simp
  then show ?thesis
    unfolding read_int2_def using False
    by (simp add: enough_counted [OF assms(1,2) code_h assms(3)] size_h
        slice_to_decode_run [OF assms(3)])
qed


lemma read_int4_enough:
  assumes "fmode h = RD" "\<not> closed h" "0 \<le> N" "4 * N \<le> int (remaining h)"
  shows "read_int4 P N h =
           (Inr (if N = 1 then Scalar (decode_value P (CHR ''i'') (take 4 (drop (pos h) (content h))))
                 else TupleV (decode_run P (CHR ''i'') (nat N) (take (nat N * 4) (drop (pos h) (content h))))),
            h\<lparr>pos := pos h + nat N * 4\<rparr>)"
proof (cases "N = 1")
  case True
  with assms(4) have "4 \<le> int (remaining h)" by simp
  then show ?thesis
    unfolding read_int4_def using True
    by (simp add: enough_single [OF assms(1,2) code_i] size_i index0_decode_run bind_exn_Inr)
next
  case False
  from assms(4) have "N * 4 \<le> int (remaining h)" by simp
  then show ?thesis
    unfolding read_int4_def using False
    by (simp add: enough_counted [OF assms(1,2) code_i assms(3)] size_i
        slice_to_decode_run [OF assms(3)])
qed

lemma read_int8_enough:
  assumes "fmode h = RD" "\<not> closed h" "long_size P = 8" "0 \<le> N" "8 * N \<le> int (remaining h)"
  shows "read_int8 P N h =
           (Inr (if N = 1 then Scalar (decode_value P (CHR ''l'') (take 8 (drop (pos h) (content h))))
                 else TupleV (decode_run P (CHR ''l'') (nat N) (take (nat N * 8) (drop (pos h) (content h))))),
            h\<lparr>pos := pos h + nat N * 8\<rparr>)"
proof (cases "N = 1")
  case True
  with assms(5) have "8 \<le> int (remaining h)" by simp
  then show ?thesis
    unfolding read_int8_def using True
    by (simp add: enough_single [OF assms(1,2) code_l] size_l index0_decode_run bind_exn_Inr assms(3))
next
  case False
  from assms(5) have "N * 8 \<le> int (remaining h)" by simp
  then show ?thesis
    unfolding read_int8_def using False
    by (simp add: enough_counted [OF assms(1,2) code_l assms(4)] size_l
        slice_to_decode_run [OF assms(4)] assms(3))
qed

lemma read_double_enough:
  assumes "fmode h = RD" "\<not> closed h" "0 \<le> N" "8 * N \<le> int (remaining h)"
  shows "read_double P N h =
           (Inr (if N = 1 then Scalar (decode_value P (CHR ''d'') (take 8 (drop (pos h) (content h))))
                 else TupleV (decode_run P (CHR ''d'') (nat N) (take (nat N * 8) (drop (pos h) (content h))))),
            h\<lparr>pos := pos h + nat N * 8\<rparr>)"
proof (cases "N = 1")
  case True
  with assms(4) have "8 \<le> int (remaining h)" by simp
  then show ?thesis
    unfolding read_double_def using True
    by (simp add: enough_single [OF assms(1,2) code_d] size_d index0_decode_run bind_exn_Inr)
next
  case False
  from assms(4) have "N * 8 \<le> int (remaining h)" by simp
  then show ?thesis
    unfolding read_double_def using False
    by (simp add: enough_counted [OF assms(1,2) code_d assms(3)] size_d
        slice_to_decode_run [OF assms(3)])
qed

lemma read_float_enough:
  assumes "fmode h = RD" "\<not> closed h" "0 \<le> N" "4 * N \<le> int (remaining h)"
  shows "read_float P N dt h =
           (Inr (if N = 1 then Scalar (ConvV dt (decode_value P (CHR ''f'') (take 4 (drop (pos h) (content h)))))
                 else ListV (map (ConvV dt) (decode_run P (CHR ''f'') (nat N) (take (nat N * 4) (drop (pos h) (content h)))))),
            h\<lparr>pos := pos h + nat N * 4\<rparr>)"
proof (cases "N = 1")
  case True
  with assms(4) have "4 \<le> int (remaining h)" by simp
  then show ?thesis
    unfolding read_float_def using True
    by (simp add: enough_single [OF assms(1,2) code_f] size_f index0_decode_run bind_exn_Inr)
next
  case False
  from assms(4) have "N * 4 \<le> int (remaining h)" by simp
  then show ?thesis
    unfolding read_float_def using False
    by (simp add: enough_counted [OF assms(1,2) code_f assms(3)] size_f
        slice_to_decode_run [OF assms(3)])
qed

lemma read_int1_one:
  assumes "fmode h = RD" "\<not> closed h" "1 \<le> remaining h"
  shows "read_int1 P 1 h =
           (Inr (Scalar (decode_value P (CHR ''b'') (take 1 (drop (pos h) (content h))))),
            h\<lparr>pos := pos h + 1\<rparr>)"
proof -
  from assms(3) have "1 \<le> int (remaining h)" by simp
  then show ?thesis
    unfolding read_int1_def
    by (simp add: enough_single [OF assms(1,2) code_b] size_b index0_decode_run bind_exn_Inr)
qed

subsection \<open>Writing integers and reading them back\<close>

lemma length_concat_int_bytes:
  "length (concat (map (int_bytes P w) xs)) = length xs * w"
  by (induction xs) (simp_all add: length_int_bytes)

lemma struct_pack_counted_ints:
  assumes "is_code c" "\<not> is_float_code c" "list_all (in_range (itemsize P c)) xs"
  shows "struct_pack P (format_d (int (length xs)) @ [c]) (map IntV xs)
         = Inr (concat (map (int_bytes P (itemsize P c)) xs))"
proof -
  have "parse_items None (format_d (int (length xs)) @ [c]) = Some [(length xs, c)]"
    using parse_counted [of "int (length xs)" c] assms(1) by simp
  then show ?thesis
    by (simp add: struct_pack_def align_up_0 Let_def encode_many_ints [OF assms(2,3)] bind_exn_Inr
        not_mixed_single within_counted [OF assms(1)])
qed

lemma struct_pack_single_int:
  assumes "is_code c" "\<not> is_float_code c" "in_range (itemsize P c) x"
  shows "struct_pack P [c] [IntV x] = Inr (int_bytes P (itemsize P c) x)"
  using assms code_props [of c]
  by (simp add: struct_pack_def align_up_0 Let_def encode_value_def bind_exn_Inr
      not_mixed_single within_single [OF assms(1)])

lemma file_write_open:
  "fmode h = WR \<Longrightarrow> \<not> closed h \<Longrightarrow>
   file_write bs h =
     (Inr (), h\<lparr>content := take (pos h) (content h) @ bs @ drop (pos h + length bs) (content h),
                pos := pos h + length bs\<rparr>)"
  by (simp add: file_write_def Let_def)

lemma write_type_ints:
  assumes "is_code c" "\<not> is_float_code c" "list_all (in_range (itemsize P c)) xs" "xs \<noteq> []"
  shows "write_type P (if length xs = 1 then Scalar (IntV (hd xs)) else ListV (map IntV xs)) [c] h
         = file_write (concat (map (int_bytes P (itemsize P c)) xs)) h"
proof (cases "length xs = 1")
  case True
  then obtain x where xs: "xs = [x]"
    by (cases xs) simp_all
  with assms(3) have "in_range (itemsize P c) x" by simp
  from struct_pack_single_int [OF assms(1,2) this] xs show ?thesis
    by (simp add: write_type_def has_iter_def elems_def)
next
  case False
  with struct_pack_counted_ints [OF assms(1,2,3)] show ?thesis
    by (simp add: write_type_def has_iter_def elems_def)
qed

lemma decode_run_written:
  assumes "\<not> is_float_code c" "0 < itemsize P c" "list_all (in_range (itemsize P c)) xs"
  shows "decode_run P c (length xs)
           (take (length xs * itemsize P c) (concat (map (int_bytes P (itemsize P c)) xs) @ rest))
         = map IntV xs"
  using decode_run_ints [OF assms, of "[]"]
  by (simp add: length_concat_int_bytes)

lemma decode_value_written:
  assumes "\<not> is_float_code c" "0 < itemsize P c" "in_range (itemsize P c) x"
  shows "decode_value P c (take (itemsize P c) (int_bytes P (itemsize P c) x @ rest)) = IntV x"
  using decode_int_bytes [OF assms] by (simp add: length_int_bytes)

lemma int_codes_not_float:
  "\<not> is_float_code (CHR ''b'')" "\<not> is_float_code (CHR ''h'')"
  "\<not> is_float_code (CHR ''i'')" "\<not> is_float_code (CHR ''l'')"
  by (simp_all add: is_float_code_def)

lemma read_int2_back:
  assumes "fmode h = RD" "\<not> closed h" "list_all (in_range 2) xs" "xs \<noteq> []"
    and "drop (pos h) (content h) = concat (map (int_bytes P 2) xs) @ rest"
  shows "read_int2 P (int (length xs)) h =
           (Inr (if length xs = 1 then Scalar (IntV (hd xs)) else TupleV (map IntV xs)),
            h\<lparr>pos := pos h + length xs * 2\<rparr>)"
proof -
  have "length (drop (pos h) (content h)) = length xs * 2 + length rest"
    by (simp add: assms(5) length_concat_int_bytes)
  then have rem: "2 * int (length xs) \<le> int (remaining h)"
    by (simp add: remaining_def)
  have run: "decode_run P (CHR ''h'') (length xs)
               (take (length xs * 2) (concat (map (int_bytes P 2) xs) @ rest)) = map IntV xs"
    using decode_run_written [of "CHR ''h''" P xs rest] assms(3)
    by (simp add: size_h int_codes_not_float)
  show ?thesis
  proof (cases "length xs = 1")
    case True
    then obtain x where xs: "xs = [x]"
      by (cases xs) simp_all
    with assms(3) have "in_range 2 x" by simp
    then have "decode_value P (CHR ''h'') (take 2 (int_bytes P 2 x @ rest)) = IntV x"
      using decode_value_written [of "CHR ''h''" P x rest]
      by (simp add: size_h int_codes_not_float)
    with xs assms(5) rem show ?thesis
      by (simp add: read_int2_enough [OF assms(1,2)])
  next
    case False
    with run assms(5) rem show ?thesis
      by (simp add: read_int2_enough [OF assms(1,2)])
  qed
qed

lemma read_int4_back:
  assumes "fmode h = RD" "\<not> closed h" "list_all (in_range 4) xs" "xs \<noteq> []"
    and "drop (pos h) (content h) = concat (map (int_bytes P 4) xs) @ rest"
  shows "read_int4 P (int (length xs)) h =
           (Inr (if length xs = 1 then Scalar (IntV (hd xs)) else TupleV (map IntV xs)),
            h\<lparr>pos := pos h + length xs * 4\<rparr>)"
proof -
  have "length (drop (pos h) (content h)) = length xs * 4 + length rest"
    by (simp add: assms(5) length_concat_int_bytes)
  then have rem: "4 * int (length xs) \<le> int (remaining h)"
    by (simp add: remaining_def)
  have run: "decode_run P (CHR ''i'') (length xs)
               (take (length xs * 4) (concat (map (int_bytes P 4) xs) @ rest)) = map IntV xs"
    using decode_run_written [of "CHR ''i''" P xs rest] assms(3)
    by (simp add: size_i int_codes_not_float)
  show ?thesis
  proof (cases "length xs = 1")
    case True
    then obtain x where xs: "xs = [x]"
      by (cases xs) simp_all
    with assms(3) have "in_range 4 x" by simp
    then have "decode_value P (CHR ''i'') (take 4 (int_bytes P 4 x @ rest)) = IntV x"
      using decode_value_written [of "CHR ''i''" P x rest]
      by (simp add: size_i int_codes_not_float)
    with xs assms(5) rem show ?thesis
      by (simp add: read_int4_enough [OF assms(1,2)])
  next
    case False
    with run assms(5) rem show ?thesis
      by (simp add: read_int4_enough [OF assms(1,2)])
  qed
qed

lemma read_int8_back:
  assumes "fmode h = RD" "\<not> closed h" "long_size P = 8" "list_all (in_range 8) xs" "xs \<noteq> []"
    and "drop (pos h) (content h) = concat (map (int_bytes P 8) xs) @ rest"
  shows "read_int8 P (int (length xs)) h =
           (Inr (if length xs = 1 then Scalar (IntV (hd xs)) else TupleV (map IntV xs)),
            h\<lparr>pos := pos h + length xs * 8\<rparr>)"
proof -
  have "length (drop (pos h) (content h)) = length xs * 8 + length rest"
    by (simp add: assms(6) length_concat_int_bytes)
  then have rem: "8 * int (length xs) \<le> int (remaining h)"
    by (simp add: remaining_def)
  have run: "decode_run P (CHR ''l'') (length xs)
               (take (length xs * 8) (concat (map (int_bytes P 8) xs) @ rest)) = map IntV xs"
    using decode_run_written [of "CHR ''l''" P xs rest] assms(4)
    by (simp add: size_l int_codes_not_float assms(3))
  show ?thesis
  proof (cases "length xs = 1")
    case True
    then obtain x where xs: "xs = [x]"
      by (cases xs) simp_all
    with assms(4) have "in_range 8 x" by simp
    then have "decode_value P (CHR ''l'') (take 8 (int_bytes P 8 x @ rest)) = IntV x"
      using decode_value_written [of "CHR ''l''" P x rest]
      by (simp add: size_l int_codes_not_float assms(3))
    with xs assms(6) rem show ?thesis
      by (simp add: read_int8_enough [OF assms(1,2,3)])
  next
    case False
    with run assms(6) rem show ?thesis
      by (simp add: read_int8_enough [OF assms(1,2,3)])
  qed
qed

lemma written_then_dropped:
  assumes "pos hw \<le> length (content hw)"
  shows "drop (pos hw) (take (pos hw) (content hw) @ bs @ drop (pos hw + length bs) (content hw))
         = bs @ drop (pos hw + length bs) (content hw)"
  using assms by simp

text \<open>
  For the widths 2, 4 and 8 the round trip holds: a writer puts \<open>xs\<close> into the file (a
  bare number when there is one value, a list otherwise), and a reader standing where
  the writer stood gets the same values back, as a bare number or as a tuple.
\<close>

lemma write_int2_read_int2:
  assumes hw: "fmode hw = WR" "\<not> closed hw" and le: "pos hw \<le> length (content hw)"
    and xs: "list_all (in_range 2) xs" "xs \<noteq> []"
    and hr: "fmode hr = RD" "\<not> closed hr" and p: "pos hr = pos hw"
    and c: "content hr = content (snd (write_int2 P
           (if length xs = 1 then Scalar (IntV (hd xs)) else ListV (map IntV xs)) hw))"
  shows "fst (write_int2 P (if length xs = 1 then Scalar (IntV (hd xs)) else ListV (map IntV xs)) hw)
           = Inr ()
         \<and> fst (read_int2 P (int (length xs)) hr)
           = Inr (if length xs = 1 then Scalar (IntV (hd xs)) else TupleV (map IntV xs))"
proof -
  let ?val = "if length xs = 1 then Scalar (IntV (hd xs)) else ListV (map IntV xs)"
  let ?B = "concat (map (int_bytes P 2) xs)"
  have r: "list_all (in_range (itemsize P (CHR ''h''))) xs"
    using xs by (simp add: size_h)
  have "write_int2 P ?val hw = file_write (concat (map (int_bytes P (itemsize P (CHR ''h''))) xs)) hw"
    unfolding write_int2_def
    by (rule write_type_ints [OF code_h int_codes_not_float(2) r \<open>xs \<noteq> []\<close>])
  then have w: "write_int2 P ?val hw =
             (Inr (), hw\<lparr>content := take (pos hw) (content hw) @ ?B @ drop (pos hw + length ?B) (content hw),
                        pos := pos hw + length ?B\<rparr>)"
    using xs by (simp only: size_h file_write_open [OF hw])
  from c have "content hr = take (pos hw) (content hw) @ ?B @ drop (pos hw + length ?B) (content hw)"
    unfolding w by simp
  with le p have "drop (pos hr) (content hr) = ?B @ drop (pos hw + length ?B) (content hw)"
    by simp
  from read_int2_back [OF hr xs this] show ?thesis
    unfolding w by simp
qed

lemma write_int4_read_int4:
  assumes hw: "fmode hw = WR" "\<not> closed hw" and le: "pos hw \<le> length (content hw)"
    and xs: "list_all (in_range 4) xs" "xs \<noteq> []"
    and hr: "fmode hr = RD" "\<not> closed hr" and p: "pos hr = pos hw"
    and c: "content hr = content (snd (write_int4 P
           (if length xs = 1 then Scalar (IntV (hd xs)) else ListV (map IntV xs)) hw))"
  shows "fst (write_int4 P (if length xs = 1 then Scalar (IntV (hd xs)) else ListV (map IntV xs)) hw)
           = Inr ()
         \<and> fst (read_int4 P (int (length xs)) hr)
           = Inr (if length xs = 1 then Scalar (IntV (hd xs)) else TupleV (map IntV xs))"
proof -
  let ?val = "if length xs = 1 then Scalar (IntV (hd xs)) else ListV (map IntV xs)"
  let ?B = "concat (map (int_bytes P 4) xs)"
  have r: "list_all (in_range (itemsize P (CHR ''i''))) xs"
    using xs by (simp add: size_i)
  have "write_int4 P ?val hw = file_write (concat (map (int_bytes P (itemsize P (CHR ''i''))) xs)) hw"
    unfolding write_int4_def
    by (rule write_type_ints [OF code_i int_codes_not_float(3) r \<open>xs \<noteq> []\<close>])
  then have w: "write_int4 P ?val hw =
             (Inr (), hw\<lparr>content := take (pos hw) (content hw) @ ?B @ drop (pos hw + length ?B) (content hw),
                        pos := pos hw + length ?B\<rparr>)"
    using xs by (simp only: size_i file_write_open [OF hw])
  from c have "content hr = take (pos hw) (content hw) @ ?B @ drop (pos hw + length ?B) (content hw)"
    unfolding w by simp
  with le p have "drop (pos hr) (content hr) = ?B @ drop (pos hw + length ?B) (content hw)"
    by simp
  from read_int4_back [OF hr xs this] show ?thesis
    unfolding w by simp
qed

lemma write_int8_read_int8:
  assumes hw: "fmode hw = WR" "\<not> closed hw" and le: "pos hw \<le> length (content hw)"
    and xs: "long_size P = 8" "list_all (in_range 8) xs" "xs \<noteq> []"
    and hr: "fmode hr = RD" "\<not> closed hr" and p: "pos hr = pos hw"
    and c: "content hr = content (snd (write_int8 P
           (if length xs = 1 then Scalar (IntV (hd xs)) else ListV (map IntV xs)) hw))"
  shows "fst (write_int8 P (if length xs = 1 then Scalar (IntV (hd xs)) else ListV (map IntV xs)) hw)
           = Inr ()
         \<and> fst (read_int8 P (int (length xs)) hr)
           = Inr (if length xs = 1 then Scalar (IntV (hd xs)) else TupleV (map IntV xs))"
proof -
  let ?val = "if length xs = 1 then Scalar (IntV (hd xs)) else ListV (map IntV xs)"
  let ?B = "concat (map (int_bytes P 8) xs)"
  have r: "list_all (in_range (itemsize P (CHR ''l''))) xs"
    using xs by (simp add: size_l)
  have "write_int8 P ?val hw = file_write (concat (map (int_bytes P (itemsize P (CHR ''l''))) xs)) hw"
    unfolding write_int8_def
    by (rule write_type_ints [OF code_l int_codes_not_float(4) r \<open>xs \<noteq> []\<close>])
  then have w: "write_int8 P ?val hw =
             (Inr (), hw\<lparr>content := take (pos hw) (content hw) @ ?B @ drop (pos hw + length ?B) (content hw),
                        pos := pos hw + length ?B\<rparr>)"
    using xs by (simp only: size_l file_write_open [OF hw])
  from c have "content hr = take (pos hw) (content hw) @ ?B @ drop (pos hw + length ?B) (content hw)"
    unfolding w by simp
  with le p have "drop (pos hr) (content hr) = ?B @ drop (pos hw + length ?B) (content hw)"
    by simp
  from read_int8_back [OF hr xs this] show ?thesis
    unfolding w by simp
qed

text \<open>For width 1 it holds for a single value.\<close>

lemma write_int1_read_int1_scalar:
  assumes hw: "fmode hw = WR" "\<not> closed hw" and le: "pos hw \<le> length (content hw)"
    and x: "in_range 1 x"
    and hr: "fmode hr = RD" "\<not> closed hr" and p: "pos hr = pos hw"
    and c: "content hr = content (snd (write_int1 P (Scalar (IntV x)) hw))"
  shows "fst (write_int1 P (Scalar (IntV x)) hw) = Inr ()
         \<and> fst (read_int1 P 1 hr) = Inr (Scalar (IntV x))"
proof -
  let ?B = "int_bytes P 1 x"
  have r: "list_all (in_range (itemsize P (CHR ''b''))) [x]"
    using x by (simp add: size_b)
  have "write_int1 P (Scalar (IntV x)) hw
        = file_write (concat (map (int_bytes P (itemsize P (CHR ''b''))) [x])) hw"
    unfolding write_int1_def
    using write_type_ints [OF code_b int_codes_not_float(1) r, of hw] by simp
  then have w: "write_int1 P (Scalar (IntV x)) hw =
             (Inr (), hw\<lparr>content := take (pos hw) (content hw) @ ?B @ drop (pos hw + length ?B) (content hw),
                        pos := pos hw + length ?B\<rparr>)"
    by (simp add: size_b file_write_open [OF hw])
  from c have "content hr = take (pos hw) (content hw) @ ?B @ drop (pos hw + length ?B) (content hw)"
    unfolding w by simp
  with le p have d: "drop (pos hr) (content hr) = ?B @ drop (pos hw + length ?B) (content hw)"
    by simp
  then have "1 \<le> remaining hr"
    using length_int_bytes [of P 1 x]
    by (metis One_nat_def Suc_leI drop_eq_Nil2 length_0_conv length_append linorder_not_le
        remaining_def zero_less_diff add_is_0 zero_neq_one)
  from read_int1_one [OF hr this, of P] d decode_value_written [of "CHR ''b''" P x] x
  show ?thesis
    unfolding w by (simp add: size_b int_codes_not_float)
qed

text \<open>
  Claim C3 states the round trip for every width and every count. For width 1 and a
  count above 1 it fails: \<open>write_int1([1, 2])\<close> puts the bytes \<open>01 02\<close> into an empty
  file, and \<open>read_int1(2)\<close> on a file with these two bytes reads them and raises
  \<open>IOError\<close>, because of the format that \<open>read_int1\<close> leaves unformatted.
\<close>

theorem write_int1_read_int1_sequence_fails:
  "write_int1 P (ListV [IntV 1, IntV 2]) (file_open [] WR)
     = (Inr (), \<lparr>content = [1, 2], pos = 2, fmode = WR, closed = False\<rparr>) \<and>
   read_int1 P 2 (file_open [1, 2] RD)
     = (Inl IOError, \<lparr>content = [1, 2], pos = 2, fmode = RD, closed = False\<rparr>)"
proof -
  have "list_all (in_range (itemsize P (CHR ''b''))) [1, 2]"
    by (simp add: size_b in_range_def)
  from write_type_ints [OF code_b int_codes_not_float(1) this, of "file_open [] WR"]
  have "write_int1 P (ListV [IntV 1, IntV 2]) (file_open [] WR)
        = file_write (int_bytes P 1 1 @ int_bytes P 1 2) (file_open [] WR)"
    by (simp add: write_int1_def size_b)
  moreover have "int_bytes P 1 1 = [1]" "int_bytes P 1 2 = [2]"
    by (simp_all add: int_bytes_def native_bytes_def)
  ultimately have w: "write_int1 P (ListV [IntV 1, IntV 2]) (file_open [] WR)
        = (Inr (), \<lparr>content = [1, 2], pos = 2, fmode = WR, closed = False\<rparr>)"
    by (simp add: file_write_def file_open_def)
  have "read_int1 P 2 (file_open [1, 2] RD)
        = (Inl IOError, \<lparr>content = [1, 2], pos = 2, fmode = RD, closed = False\<rparr>)"
    by (simp add: read_int1_def file_read_def file_open_def Let_def bind_exn_Inr bind_exn_Inl
        unpack_unformatted)
  with w show ?thesis by simp
qed

text \<open>
  Claim C6 states for every typed read that a count above 1 gives a sequence of exactly
  that many values. \<open>read_int1\<close> gives the bare number for the count 1 and raises
  \<open>IOError\<close> for the count 3 on a file that holds three bytes; the other reads return
  their sequence (lemmas \<open>read_int2_enough\<close> to \<open>read_float_enough\<close> above).
\<close>

theorem read_int1_returns_no_sequence:
  "read_int1 P 1 (file_open [1, 2, 3] RD)
     = (Inr (Scalar (IntV 1)), \<lparr>content = [1, 2, 3], pos = 1, fmode = RD, closed = False\<rparr>) \<and>
   read_int1 P 3 (file_open [1, 2, 3] RD)
     = (Inl IOError, \<lparr>content = [1, 2, 3], pos = 3, fmode = RD, closed = False\<rparr>)"
proof -
  have "decode_value P (CHR ''b'') [1] = IntV 1"
    by (simp add: decode_value_def native_nat_def to_signed_def)
  then have "read_int1 P 1 (file_open [1, 2, 3] RD)
     = (Inr (Scalar (IntV 1)), \<lparr>content = [1, 2, 3], pos = 1, fmode = RD, closed = False\<rparr>)"
    using read_int1_one [of "file_open [1, 2, 3] RD" P]
    by (simp add: file_open_def remaining_def)
  moreover have "read_int1 P 3 (file_open [1, 2, 3] RD)
     = (Inl IOError, \<lparr>content = [1, 2, 3], pos = 3, fmode = RD, closed = False\<rparr>)"
    by (simp add: read_int1_def file_read_def file_open_def Let_def bind_exn_Inr bind_exn_Inl
        unpack_unformatted)
  ultimately show ?thesis by simp
qed


subsection \<open>Single precision under the three result types\<close>

lemma find_exp_bounds:
  "lo \<le> e0 \<Longrightarrow> x < power_int 2 (e0 + 1) \<Longrightarrow> nat (e0 - lo) \<le> k \<Longrightarrow>
   lo \<le> find_exp k x lo \<and> find_exp k x lo \<le> e0"
proof (induction k arbitrary: lo)
  case 0
  then show ?case by simp
next
  case (Suc k)
  show ?case
  proof (cases "x < power_int 2 (lo + 1)")
    case True
    with Suc.prems show ?thesis by simp
  next
    case False
    with Suc.prems(2) have "lo \<noteq> e0" by auto
    with Suc.prems have "lo + 1 \<le> e0" "nat (e0 - (lo + 1)) \<le> k" by simp_all
    from Suc.IH [OF this(1) Suc.prems(2) this(2)] False show ?thesis by simp
  qed
qed

lemma round_half_even_of_int: "round_half_even (of_int z) = z"
  by (simp add: round_half_even_def)


lemma ieee_round_exact:
  assumes x: "x = of_nat M * power_int 2 E" and M: "M < 2 ^ p" and p: "p \<le> fb + 1"
    and lo: "1 - bias eb \<le> E + int p - 1" and hi: "E + int p - 1 \<le> bias eb"
  shows "ieee_round eb fb (Finite s x) = Finite s x"
proof -
  let ?e0 = "E + int p - 1"
  let ?k = "nat (2 * bias eb - 1)"
  define e where "e = find_exp ?k x (1 - bias eb)"
  have pos2: "(0::rat) < power_int 2 E"
    by simp
  have "(of_nat M :: rat) < 2 ^ p"
    using M by (metis of_nat_less_iff of_nat_numeral of_nat_power)
  then have "x < 2 ^ p * power_int 2 E"
    unfolding x using pos2 by (rule mult_strict_right_mono)
  also have "(2::rat) ^ p * power_int 2 E = power_int 2 (int p + E)"
    by (simp add: power_int_add)
  finally have x_lt: "x < power_int 2 (?e0 + 1)"
    by (simp add: add.commute)
  have "power_int (2::rat) (?e0 + 1) \<le> power_int 2 (bias eb + 1)"
    using hi by (intro power_int_increasing) simp_all
  with x_lt have no_ovf: "\<not> power_int 2 (bias eb + 1) \<le> x"
    by simp
  have "nat (?e0 - (1 - bias eb)) \<le> ?k"
    using hi by simp
  from find_exp_bounds [OF lo x_lt this]
  have e: "1 - bias eb \<le> e" "e \<le> ?e0"
    by (simp_all add: e_def)
  define d where "d = nat (E - (e - int fb))"
  have d: "int d = E - (e - int fb)"
    using e(2) p by (simp add: d_def)
  have "x / power_int 2 (e - int fb) = of_nat M * (power_int 2 E / power_int 2 (e - int fb))"
    by (simp add: x)
  also have "power_int (2::rat) E / power_int 2 (e - int fb) = power_int 2 (int d)"
    unfolding d by (simp add: power_int_diff)
  finally have quot: "x / power_int 2 (e - int fb) = of_int (int (M * 2 ^ d))"
    by simp
  have "of_int (int (M * 2 ^ d)) * power_int (2::rat) (e - int fb)
        = of_nat M * (power_int 2 (int d) * power_int 2 (e - int fb))"
    by simp
  also have "power_int (2::rat) (int d) * power_int 2 (e - int fb) = power_int 2 E"
    unfolding d by (simp add: power_int_add [symmetric])
  finally have again: "of_int (int (M * 2 ^ d)) * power_int (2::rat) (e - int fb) = x"
    by (simp add: x)
  show ?thesis
    using no_ovf
    by (simp add: ieee_round_def Let_def e_def [symmetric] quot round_half_even_of_int again
        del: of_int_of_nat_eq of_nat_mult of_nat_power)
qed

lemma binary32_exact:
  assumes fb: "23 \<le> fb" and eb: "127 \<le> bias eb"
  shows "ieee_round eb fb (ieee_value 8 23 n) = ieee_value 8 23 n"
proof -
  define e where "e = n div 2 ^ 23 mod 2 ^ 8"
  define m where "m = n mod 2 ^ 23"
  define s where "s = odd (n div 2 ^ (8 + 23))"
  have m: "m < 2 ^ 23" by (simp add: m_def)
  have e: "e < 256" by (simp add: e_def)
  have v: "ieee_value 8 23 n =
             (if e = 255 then (if m = 0 then Infinite s else NaN)
              else if e = 0 then Finite s (of_nat m * power_int 2 (- 149))
              else Finite s (of_nat (2 ^ 23 + m) * power_int 2 (int e - 150)))"
    by (simp add: ieee_value_def Let_def e_def m_def s_def bias_def)
  show ?thesis
  proof (cases "e = 255")
    case True
    then show ?thesis by (simp add: v ieee_round_def)
  next
    case False
    show ?thesis
    proof (cases "e = 0")
      case True
      have "ieee_round eb fb (Finite s (of_nat m * power_int 2 (- 149)))
            = Finite s (of_nat m * power_int 2 (- 149))"
        using m fb eb by (intro ieee_round_exact [where p = 24 and M = m and E = "- 149"]) simp_all
      with True show ?thesis by (simp add: v)
    next
      case nz: False
      have "ieee_round eb fb (Finite s (of_nat (2 ^ 23 + m) * power_int 2 (int e - 150)))
            = Finite s (of_nat (2 ^ 23 + m) * power_int 2 (int e - 150))"
        using m fb eb e False nz
        by (intro ieee_round_exact [where p = 24 and M = "2 ^ 23 + m" and E = "int e - 150"]) simp_all
      with False nz show ?thesis by (simp add: v)
    qed
  qed
qed

lemma float_value_conv_binary32:
  "float_value (ConvV dt (FloatV (Binary32 n))) = Some (ieee_value 8 23 n)"
  by (cases dt) (simp_all add: binary32_exact bias_def)

lemma read_float_one:
  assumes "fmode h = RD" "\<not> closed h" "4 \<le> remaining h"
  shows "read_float P 1 dt h =
           (Inr (Scalar (ConvV dt (FloatV (Binary32 (native_nat P (take 4 (drop (pos h) (content h)))))))),
            h\<lparr>pos := pos h + 4\<rparr>)"
  using read_float_enough [OF assms(1,2), of 1 P dt] assms(3)
  by (simp add: decode_value_def)

text \<open>
  Claim C8: on a file open for reading with at least 4 bytes left, \<open>read_float(1)\<close>,
  \<open>read_real4(1)\<close> and \<open>read_real8(1)\<close> consume the same 4 bytes and decode them to
  the same binary32 pattern; the results are that value under \<open>float\<close>,
  \<open>numpy.float32\<close> and \<open>numpy.float64\<close>, and all three stand for the number of the
  pattern, since a binary32 number converts exactly to either format.
\<close>

theorem real4_real8_agree_with_float:
  assumes "fmode h = RD" "\<not> closed h" "4 \<le> remaining h"
  shows "let v = FloatV (Binary32 (native_nat P (take 4 (drop (pos h) (content h)))))
         in read_float P 1 PyFloat h = (Inr (Scalar (ConvV PyFloat v)), h\<lparr>pos := pos h + 4\<rparr>) \<and>
            read_real4 P 1 h = (Inr (Scalar (ConvV NpFloat32 v)), h\<lparr>pos := pos h + 4\<rparr>) \<and>
            read_real8 P 1 h = (Inr (Scalar (ConvV NpFloat64 v)), h\<lparr>pos := pos h + 4\<rparr>) \<and>
            float_value (ConvV NpFloat32 v) = float_value (ConvV PyFloat v) \<and>
            float_value (ConvV NpFloat64 v) = float_value (ConvV PyFloat v) \<and>
            float_value (ConvV PyFloat v) = float_value v"
  by (simp add: Let_def read_real4_def read_real8_def read_float_one [OF assms]
      float_value_conv_binary32 del: float_value.simps(4,5,6))

text \<open>
  The bytes \<open>00 00 80 3F\<close> on the little-endian host are the pattern \<open>0x3F800000\<close>,
  the number 1 under all three result types.
\<close>

theorem real4_real8_agree_with_float_witness:
  "read_float example_host 1 PyFloat (file_open [0x00, 0x00, 0x80, 0x3F] RD)
     = (Inr (Scalar (ConvV PyFloat (FloatV (Binary32 0x3F800000)))),
        (file_open [0x00, 0x00, 0x80, 0x3F] RD)\<lparr>pos := 4\<rparr>) \<and>
   read_real4 example_host 1 (file_open [0x00, 0x00, 0x80, 0x3F] RD)
     = (Inr (Scalar (ConvV NpFloat32 (FloatV (Binary32 0x3F800000)))),
        (file_open [0x00, 0x00, 0x80, 0x3F] RD)\<lparr>pos := 4\<rparr>) \<and>
   read_real8 example_host 1 (file_open [0x00, 0x00, 0x80, 0x3F] RD)
     = (Inr (Scalar (ConvV NpFloat64 (FloatV (Binary32 0x3F800000)))),
        (file_open [0x00, 0x00, 0x80, 0x3F] RD)\<lparr>pos := 4\<rparr>) \<and>
   float_value (ConvV NpFloat32 (FloatV (Binary32 0x3F800000))) = Some (Finite False 1) \<and>
   float_value (ConvV NpFloat64 (FloatV (Binary32 0x3F800000))) = Some (Finite False 1) \<and>
   float_value (ConvV PyFloat (FloatV (Binary32 0x3F800000))) = Some (Finite False 1)"
proof -
  have n: "native_nat example_host [0x00, 0x00, 0x80, 0x3F] = 0x3F800000"
    by (simp add: native_nat_def example_host_def)
  have v: "float_value (FloatV (Binary32 0x3F800000)) = Some (Finite False 1)"
    by (simp add: ieee_value_def bias_def)
  from real4_real8_agree_with_float [of "file_open [0x00, 0x00, 0x80, 0x3F] RD" example_host]
  show ?thesis
    by (simp add: file_open_def remaining_def n v Let_def del: float_value.simps)
qed

end
